theory Spec2Isabelle
  imports Complex_Main "HOL-Library.Word"
begin

section \<open>Tensor elements\<close>

text \<open>
  The kernels of \<^verbatim>\<open>unsloth/kernels/cross_entropy_loss.py\<close> compute on floating-point
  lanes. The model keeps the four kinds of value a lane can hold (a finite number, the two
  infinities, not-a-number) and computes on the finite ones in exact real arithmetic, so
  rounding is left out and the special values are kept: the kernels themselves put
  \<open>-inf\<close> into the lanes beyond the vocabulary (\<^verbatim>\<open>other = -float("inf")\<close>), and the
  arithmetic on it follows IEEE 754. A signed zero is not distinguished from zero; a finite
  number divided by zero is taken as divided by \<open>+0\<close>.
\<close>

datatype fval = NInf | Fin real | PInf | NaN

text \<open>The infinity that has the sign of \<open>s\<close>; \<open>0 * inf\<close> is not a number.\<close>

definition inf_signed :: "real \<Rightarrow> fval" where
  "inf_signed s = (if 0 < s then PInf else if s < 0 then NInf else NaN)"

fun fneg :: "fval \<Rightarrow> fval" where
  "fneg NInf = PInf"
| "fneg (Fin x) = Fin (- x)"
| "fneg PInf = NInf"
| "fneg NaN = NaN"

fun fadd :: "fval \<Rightarrow> fval \<Rightarrow> fval" where
  "fadd NaN _ = NaN"
| "fadd _ NaN = NaN"
| "fadd (Fin a) (Fin b) = Fin (a + b)"
| "fadd (Fin a) PInf = PInf"
| "fadd (Fin a) NInf = NInf"
| "fadd PInf (Fin b) = PInf"
| "fadd NInf (Fin b) = NInf"
| "fadd PInf PInf = PInf"
| "fadd NInf NInf = NInf"
| "fadd PInf NInf = NaN"
| "fadd NInf PInf = NaN"

definition fsub :: "fval \<Rightarrow> fval \<Rightarrow> fval" where
  "fsub a b = fadd a (fneg b)"

fun fmul :: "fval \<Rightarrow> fval \<Rightarrow> fval" where
  "fmul NaN _ = NaN"
| "fmul _ NaN = NaN"
| "fmul (Fin a) (Fin b) = Fin (a * b)"
| "fmul (Fin a) PInf = inf_signed a"
| "fmul (Fin a) NInf = inf_signed (- a)"
| "fmul PInf (Fin b) = inf_signed b"
| "fmul NInf (Fin b) = inf_signed (- b)"
| "fmul PInf PInf = PInf"
| "fmul NInf NInf = PInf"
| "fmul PInf NInf = NInf"
| "fmul NInf PInf = NInf"

fun fdiv :: "fval \<Rightarrow> fval \<Rightarrow> fval" where
  "fdiv NaN _ = NaN"
| "fdiv _ NaN = NaN"
| "fdiv (Fin a) (Fin b) = (if b = 0 then inf_signed a else Fin (a / b))"
| "fdiv (Fin a) PInf = Fin 0"
| "fdiv (Fin a) NInf = Fin 0"
| "fdiv PInf (Fin b) = (if b < 0 then NInf else PInf)"
| "fdiv NInf (Fin b) = (if b < 0 then PInf else NInf)"
| "fdiv PInf PInf = NaN"
| "fdiv NInf NInf = NaN"
| "fdiv PInf NInf = NaN"
| "fdiv NInf PInf = NaN"

text \<open>
  Modelled from the spec: \<^verbatim>\<open>triton_tanh\<close> is imported from \<^verbatim>\<open>.utils\<close>, which is not
  among the sources; the spec gives the softcap as \<open>t * tanh (x / t)\<close>, the hyperbolic
  tangent. At the infinities it takes its limits \<open>-1\<close> and \<open>1\<close>.
\<close>

fun triton_tanh :: "fval \<Rightarrow> fval" where
  "triton_tanh NInf = Fin (- 1)"
| "triton_tanh (Fin x) = Fin (tanh x)"
| "triton_tanh PInf = Fin 1"
| "triton_tanh NaN = NaN"

fun tl_exp :: "fval \<Rightarrow> fval" where
  "tl_exp NInf = Fin 0"
| "tl_exp (Fin x) = Fin (exp x)"
| "tl_exp PInf = PInf"
| "tl_exp NaN = NaN"

fun tl_log :: "fval \<Rightarrow> fval" where
  "tl_log NInf = NaN"
| "tl_log (Fin x) = (if 0 < x then Fin (ln x) else if x = 0 then NInf else NaN)"
| "tl_log PInf = PInf"
| "tl_log NaN = NaN"

fun fmax :: "fval \<Rightarrow> fval \<Rightarrow> fval" where
  "fmax NaN _ = NaN"
| "fmax _ NaN = NaN"
| "fmax PInf _ = PInf"
| "fmax _ PInf = PInf"
| "fmax NInf b = b"
| "fmax a NInf = a"
| "fmax (Fin a) (Fin b) = Fin (max a b)"

text \<open>The reductions \<^verbatim>\<open>tl.max(x, 0)\<close> and \<^verbatim>\<open>tl.sum(x, 0)\<close> over the lanes of a block.\<close>

definition tl_max :: "fval list \<Rightarrow> fval" where
  "tl_max lanes = foldr fmax lanes NInf"

definition tl_sum :: "fval list \<Rightarrow> fval" where
  "tl_sum lanes = foldr fadd lanes (Fin 0)"

text \<open>
  Lines 77-78 and 155-156: \<^verbatim>\<open>c = tl.max(logits, 0)\<close>,
  \<^verbatim>\<open>logsumexp = c + tl.log(tl.sum(tl.exp(logits - c), 0))\<close>.
\<close>

definition stable_logsumexp :: "fval list \<Rightarrow> fval" where
  "stable_logsumexp logits =
     (let c = tl_max logits
      in fadd c (tl_log (tl_sum (map (\<lambda>x. tl_exp (fsub x c)) logits))))"

text \<open>
  Modelled from the spec: \<^verbatim>\<open>torch.logsumexp\<close> is a library function; the spec's
  section 4.1 and glossary give log-sum-exp as the stable scalar
  \<open>c + log (sum (exp (x - c)))\<close> with \<open>c = max x\<close>.
\<close>

definition torch_logsumexp :: "fval list \<Rightarrow> fval" where
  "torch_logsumexp xs = stable_logsumexp xs"


section \<open>Labels, configuration, errors\<close>

text \<open>
  Labels are 32-bit signed integers (the spec's \<^verbatim>\<open>Vector<i32>\<close>), so the kernels'
  \<^verbatim>\<open>.to(tl.int32)\<close> on a loaded label is the identity; \<open>sint\<close> reads a label as a
  column index. Column offsets are natural numbers (vocabulary sizes stay below \<open>2^31\<close>).
\<close>

type_synonym i32 = "32 word"

datatype error = OutOfBounds | AssertionError

text \<open>The four compile-time parameters every kernel takes.\<close>

record config =
  DO_SOFTCAPPING :: bool
  SOFTCAP :: real
  DO_LOGIT_SCALING :: bool
  LOGIT_SCALE :: real

definition MAX_FUSED_SIZE :: nat where
  "MAX_FUSED_SIZE = 65536"

section \<open>Loads and stores\<close>

text \<open>\<^verbatim>\<open>block_idx*BLOCK_SIZE + tl.arange(0, BLOCK_SIZE)\<close>\<close>

definition col_offsets :: "nat \<Rightarrow> nat \<Rightarrow> nat list" where
  "col_offsets block_idx BLOCK_SIZE = map (\<lambda>i. block_idx * BLOCK_SIZE + i) [0..<BLOCK_SIZE]"

text \<open>
  \<^verbatim>\<open>tl.load(logits_ptr + col_offsets, mask = col_offsets < VOCAB_SIZE, other = -inf)\<close>
  on one row of the logits. A lane inside the mask and outside the row's storage is an
  out-of-bounds read.
\<close>

definition tl_load_masked :: "fval list \<Rightarrow> nat \<Rightarrow> nat list \<Rightarrow> error + fval list" where
  "tl_load_masked row VOCAB_SIZE offs =
     (if list_all (\<lambda>j. j < VOCAB_SIZE \<longrightarrow> j < length row) offs
      then Inr (map (\<lambda>j. if j < VOCAB_SIZE then row ! j else NInf) offs)
      else Inl OutOfBounds)"

text \<open>\<^verbatim>\<open>tl.load(logits_ptr + label_idx)\<close>: no mask.\<close>

definition tl_load :: "fval list \<Rightarrow> int \<Rightarrow> error + fval" where
  "tl_load row i =
     (if 0 \<le> i \<and> i < int (length row) then Inr (row ! nat i) else Inl OutOfBounds)"

text \<open>\<^verbatim>\<open>tl.store(logits_ptr + col_offsets, vals, mask = col_offsets < VOCAB_SIZE)\<close>\<close>

definition tl_store_masked :: "fval list \<Rightarrow> nat \<Rightarrow> nat list \<Rightarrow> fval list \<Rightarrow> fval list" where
  "tl_store_masked row VOCAB_SIZE offs vals =
     fold (\<lambda>(j, v) buf. if j < VOCAB_SIZE then buf[j := v] else buf) (zip offs vals) row"

text \<open>Reading entry \<open>i\<close> of a one-dimensional tensor (\<^verbatim>\<open>tl.load(labels_ptr + row_idx)\<close>).\<close>

definition read_at :: "'a list \<Rightarrow> nat \<Rightarrow> error + 'a" where
  "read_at xs i = (if i < length xs then Inr (xs ! i) else Inl OutOfBounds)"

section \<open>The elementwise pre-transform\<close>

text \<open>
  \<^verbatim>\<open>if DO_LOGIT_SCALING: logits = LOGIT_SCALE * logits\<close> and
  \<^verbatim>\<open>if DO_SOFTCAPPING: logits = SOFTCAP * triton_tanh(logits / SOFTCAP)\<close>, the two lines
  each forward kernel has twice (once on the lanes, once on the logit of the label).
\<close>

definition scale_logit :: "config \<Rightarrow> fval \<Rightarrow> fval" where
  "scale_logit cfg x = (if DO_LOGIT_SCALING cfg then fmul (Fin (LOGIT_SCALE cfg)) x else x)"

definition softcap_logit :: "config \<Rightarrow> fval \<Rightarrow> fval" where
  "softcap_logit cfg x =
     (if DO_SOFTCAPPING cfg
      then fmul (Fin (SOFTCAP cfg)) (triton_tanh (fdiv x (Fin (SOFTCAP cfg))))
      else x)"

definition transform :: "config \<Rightarrow> fval \<Rightarrow> fval" where
  "transform cfg x = softcap_logit cfg (scale_logit cfg x)"

section \<open>The forward kernels\<close>

text \<open>
  \<^verbatim>\<open>_cross_entropy_forward\<close>, the program of one row: the result is the pair stored
  into \<^verbatim>\<open>loss_ptr\<close> and \<^verbatim>\<open>logsumexp_ptr\<close>.
\<close>

definition cross_entropy_forward ::
  "fval list \<Rightarrow> i32 \<Rightarrow> nat \<Rightarrow> nat \<Rightarrow> config \<Rightarrow> error + (fval \<times> fval)" where
  "cross_entropy_forward logits_row label_idx VOCAB_SIZE BLOCK_SIZE cfg =
     (case tl_load_masked logits_row VOCAB_SIZE (col_offsets 0 BLOCK_SIZE) of
        Inl e \<Rightarrow> Inl e
      | Inr logits \<Rightarrow>
          let logits = map (transform cfg) logits;
              logsumexp = stable_logsumexp logits
          in if label_idx \<noteq> - 100
             then (case tl_load logits_row (sint label_idx) of
                     Inl e \<Rightarrow> Inl e
                   | Inr x \<Rightarrow> Inr (fsub logsumexp (transform cfg x), logsumexp))
             else Inr (Fin 0, logsumexp))"

text \<open>
  \<^verbatim>\<open>_chunked_cross_entropy_forward\<close>, the program of one (row, chunk) pair. The state is
  the row's loss slot and the row's \<open>N_CHUNKS\<close> log-sum-exp slots.
\<close>

definition chunked_cross_entropy_forward ::
  "fval list \<Rightarrow> i32 \<Rightarrow> nat \<Rightarrow> nat \<Rightarrow> config \<Rightarrow> nat \<Rightarrow> fval \<times> fval list
     \<Rightarrow> error + (fval \<times> fval list)" where
  "chunked_cross_entropy_forward logits_row label_idx VOCAB_SIZE BLOCK_SIZE cfg chunk_idx st =
     (case tl_load_masked logits_row VOCAB_SIZE (col_offsets chunk_idx BLOCK_SIZE) of
        Inl e \<Rightarrow> Inl e
      | Inr logits \<Rightarrow>
          let logits = map (transform cfg) logits;
              logsumexp = stable_logsumexp logits
          in if chunk_idx = 0
             then (if label_idx \<noteq> - 100
                   then (case tl_load logits_row (sint label_idx) of
                           Inl e \<Rightarrow> Inl e
                         | Inr x \<Rightarrow>
                             Inr (fmul (Fin (- 1)) (transform cfg x),
                                  (snd st)[chunk_idx := logsumexp]))
                   else Inr (Fin 0, (snd st)[chunk_idx := logsumexp]))
             else Inr (fst st, (snd st)[chunk_idx := logsumexp]))"

text \<open>
  A launch over the second grid axis: the programs \<open>ks\<close> of one row, each on the state the
  others left. The programs of a launch write disjoint slots, so their order is immaterial;
  the first failure fails the launch.
\<close>

fun launch :: "(nat \<Rightarrow> 's \<Rightarrow> error + 's) \<Rightarrow> nat list \<Rightarrow> 's \<Rightarrow> error + 's" where
  "launch program [] st = Inr st"
| "launch program (k # ks) st =
     (case program k st of Inl e \<Rightarrow> Inl e | Inr st' \<Rightarrow> launch program ks st')"

text \<open>The first grid axis: one result per row, or the first failure.\<close>

fun all_rows :: "(error + 'a) list \<Rightarrow> error + 'a list" where
  "all_rows [] = Inr []"
| "all_rows (r # rs) =
     (case r of
        Inl e \<Rightarrow> Inl e
      | Inr x \<Rightarrow> (case all_rows rs of Inl e \<Rightarrow> Inl e | Inr xs \<Rightarrow> Inr (x # xs)))"

section \<open>The backward kernel\<close>

text \<open>
  Lines 222-256 of \<^verbatim>\<open>_cross_entropy_backward\<close> on one lane: \<open>x\<close> is the loaded logit,
  \<open>col\<close> its column offset, \<open>dloss\<close> the value the kernel holds after lines 217-220; the
  result is the lane of \<^verbatim>\<open>dloss * y\<close>. The kernel computes \<open>partial\<close> only under
  \<open>DO_SOFTCAPPING\<close>, the one place that reads it.
\<close>

definition backward_lane :: "config \<Rightarrow> i32 \<Rightarrow> fval \<Rightarrow> fval \<Rightarrow> nat \<Rightarrow> fval \<Rightarrow> fval" where
  "backward_lane cfg label_idx logsumexp dloss col x =
     (let x = (if DO_LOGIT_SCALING cfg then fmul x (Fin (LOGIT_SCALE cfg)) else x);
          partial = triton_tanh (fdiv x (Fin (SOFTCAP cfg)));
          x = (if DO_SOFTCAPPING cfg then fmul (Fin (SOFTCAP cfg)) partial else x);
          y = tl_exp (fsub x logsumexp);
          y = (if int col = sint label_idx then fsub y (Fin 1) else y);
          y = (if DO_LOGIT_SCALING cfg then fmul y (Fin (LOGIT_SCALE cfg)) else y);
          y = (if DO_SOFTCAPPING cfg then fmul y (fsub (Fin 1) (fmul partial partial)) else y)
      in fmul dloss y)"

text \<open>
  \<^verbatim>\<open>_cross_entropy_backward\<close>, the program of one (row, block) pair: \<open>dloss_row\<close> is
  the upstream gradient of the row (read only when the label is not \<open>-100\<close>),
  \<open>logsumexp\<close> the row's saved log-sum-exp; the state is the row of the logits buffer,
  overwritten in place.
\<close>

definition cross_entropy_backward ::
  "i32 \<Rightarrow> fval \<Rightarrow> fval \<Rightarrow> nat \<Rightarrow> nat \<Rightarrow> config \<Rightarrow> nat \<Rightarrow> fval list \<Rightarrow> error + fval list" where
  "cross_entropy_backward label_idx dloss_row logsumexp VOCAB_SIZE BLOCK_SIZE cfg block_idx
       logits_row =
     (let offs = col_offsets block_idx BLOCK_SIZE;
          dloss = (if label_idx \<noteq> - 100 then dloss_row else Fin 0)
      in case tl_load_masked logits_row VOCAB_SIZE offs of
           Inl e \<Rightarrow> Inl e
         | Inr x \<Rightarrow>
             Inr (tl_store_masked logits_row VOCAB_SIZE offs
                    (map2 (backward_lane cfg label_idx logsumexp dloss) offs x)))"


section \<open>The autograd function\<close>

text \<open>
  Modelled from the spec: \<^verbatim>\<open>calculate_settings\<close> is imported from \<^verbatim>\<open>.utils\<close>, which
  is not among the sources; the spec's section 9 gives it as the block width "chosen by a
  simple power-of-two-ceiling rule bounded by the fixed capacity". The number of warps it
  also returns does not reach any result. It is called with \<open>n\<close> at most the capacity,
  where the rule stays within the capacity.
\<close>

function next_power_of_2_from :: "nat \<Rightarrow> nat \<Rightarrow> nat" where
  "next_power_of_2_from p n = (if n \<le> p \<or> p = 0 then p else next_power_of_2_from (2 * p) n)"
  by pat_completeness auto
termination
  by (relation "measure (\<lambda>(p, n). n - p)") auto

definition calculate_settings :: "nat \<Rightarrow> nat" where
  "calculate_settings n = next_power_of_2_from 1 n"

text \<open>\<^verbatim>\<open>div, mod = divmod(vocab_size, width)\<close>, \<^verbatim>\<open>div + (mod != 0)\<close>\<close>

definition n_blocks_of :: "nat \<Rightarrow> nat \<Rightarrow> nat" where
  "n_blocks_of vocab_size width =
     (let d = vocab_size div width; m = vocab_size mod width
      in d + (if m \<noteq> 0 then 1 else 0))"

text \<open>
  \<^verbatim>\<open>n_rows, vocab_size = logits.shape\<close>: a two-dimensional tensor is the list of its
  rows, each of \<open>vocab_size\<close> entries.
\<close>

definition vocab_size_of :: "fval list list \<Rightarrow> nat" where
  "vocab_size_of logits = (case logits of [] \<Rightarrow> 0 | r # _ \<Rightarrow> length r)"

definition regular :: "fval list list \<Rightarrow> bool" where
  "regular logits = list_all (\<lambda>r. length r = vocab_size_of logits) logits"

record saved_state =
  saved_logits :: "fval list list"
  saved_logsumexp :: "fval list"
  saved_labels :: "i32 list"
  saved_config :: config

text \<open>
  The branch \<^verbatim>\<open>n_chunks == 1\<close> of \<^verbatim>\<open>Fast_CrossEntropyLoss.forward\<close>: the grid
  \<^verbatim>\<open>(n_rows,)\<close> of \<^verbatim>\<open>_cross_entropy_forward\<close>; the result is \<open>losses\<close> and
  \<open>logsumexp\<close>.
\<close>

definition single_pass_branch ::
  "config \<Rightarrow> nat \<Rightarrow> fval list list \<Rightarrow> i32 list \<Rightarrow> error + (fval list \<times> fval list)" where
  "single_pass_branch cfg vocab_size logits labels =
     (let BLOCK_SIZE = calculate_settings vocab_size
      in case all_rows (map (\<lambda>row_idx.
                 case read_at labels row_idx of
                   Inl e \<Rightarrow> Inl e
                 | Inr label_idx \<Rightarrow>
                     cross_entropy_forward (logits ! row_idx) label_idx vocab_size BLOCK_SIZE cfg)
               [0..<length logits]) of
           Inl e \<Rightarrow> Inl e
         | Inr rs \<Rightarrow> Inr (map fst rs, map snd rs))"

text \<open>
  The other branch on one row: the programs \<open>0..<n_chunks\<close> of
  \<^verbatim>\<open>_chunked_cross_entropy_forward\<close> on the row's slots of \<^verbatim>\<open>torch.empty\<close> buffers
  (whose content before the launch is \<open>uninit\<close>), then lines 312-314 on the row:
  \<^verbatim>\<open>logsumexp = torch.logsumexp(logsumexp, dim = 1)\<close>, \<^verbatim>\<open>losses += logsumexp\<close>,
  \<^verbatim>\<open>losses.masked_fill_(labels == -100, 0)\<close>. The result is the row's loss and log-sum-exp.
\<close>

definition chunked_row ::
  "fval \<Rightarrow> config \<Rightarrow> nat \<Rightarrow> nat \<Rightarrow> nat \<Rightarrow> fval list \<Rightarrow> i32 \<Rightarrow> error + (fval \<times> fval)" where
  "chunked_row uninit cfg vocab_size n_chunks BLOCK_SIZE logits_row label_idx =
     (case launch (chunked_cross_entropy_forward logits_row label_idx vocab_size BLOCK_SIZE cfg)
             [0..<n_chunks] (uninit, replicate n_chunks uninit) of
        Inl e \<Rightarrow> Inl e
      | Inr (loss, chunk_logsumexp) \<Rightarrow>
          let logsumexp = torch_logsumexp chunk_logsumexp;
              loss = fadd loss logsumexp;
              loss = (if label_idx = - 100 then Fin 0 else loss)
          in Inr (loss, logsumexp))"

definition chunked_branch ::
  "fval \<Rightarrow> config \<Rightarrow> nat \<Rightarrow> nat \<Rightarrow> fval list list \<Rightarrow> i32 list
     \<Rightarrow> error + (fval list \<times> fval list)" where
  "chunked_branch uninit cfg vocab_size n_chunks logits labels =
     (case all_rows (map (\<lambda>row_idx.
               case read_at labels row_idx of
                 Inl e \<Rightarrow> Inl e
               | Inr label_idx \<Rightarrow>
                   chunked_row uninit cfg vocab_size n_chunks MAX_FUSED_SIZE
                     (logits ! row_idx) label_idx)
             [0..<length logits]) of
        Inl e \<Rightarrow> Inl e
      | Inr rs \<Rightarrow> Inr (map fst rs, map snd rs))"

text \<open>
  Lines 271-272 and the keyword arguments of the launches:
  \<^verbatim>\<open>DO_SOFTCAPPING = (logit_softcapping != 0)\<close>, \<^verbatim>\<open>SOFTCAP = logit_softcapping\<close>,
  \<^verbatim>\<open>DO_LOGIT_SCALING = (logit_scaling != 0)\<close>, \<^verbatim>\<open>LOGIT_SCALE = logit_scaling\<close>.
\<close>

definition kernel_config :: "real \<Rightarrow> real \<Rightarrow> config" where
  "kernel_config logit_softcapping logit_scaling =
     \<lparr>DO_SOFTCAPPING = (logit_softcapping \<noteq> 0), SOFTCAP = logit_softcapping,
      DO_LOGIT_SCALING = (logit_scaling \<noteq> 0), LOGIT_SCALE = logit_scaling\<rparr>"

text \<open>\<^verbatim>\<open>Fast_CrossEntropyLoss.forward\<close>: the losses and the state saved for backward.\<close>

definition Fast_CrossEntropyLoss_forward ::
  "fval \<Rightarrow> fval list list \<Rightarrow> i32 list \<Rightarrow> real \<Rightarrow> real \<Rightarrow> error + (fval list \<times> saved_state)" where
  "Fast_CrossEntropyLoss_forward uninit logits labels logit_softcapping logit_scaling =
     (let vocab_size = vocab_size_of logits;
          n_chunks = n_blocks_of vocab_size MAX_FUSED_SIZE;
          cfg = kernel_config logit_softcapping logit_scaling
      in case (if n_chunks = 1
               then single_pass_branch cfg vocab_size logits labels
               else chunked_branch uninit cfg vocab_size n_chunks logits labels) of
           Inl e \<Rightarrow> Inl e
         | Inr (losses, logsumexp) \<Rightarrow>
             Inr (losses, \<lparr>saved_logits = logits, saved_logsumexp = logsumexp,
                           saved_labels = labels, saved_config = cfg\<rparr>))"

text \<open>
  The programs \<open>0..<n_blocks\<close> of \<^verbatim>\<open>_cross_entropy_backward\<close> on one row of the
  logits buffer.
\<close>

definition backward_row ::
  "i32 \<Rightarrow> fval \<Rightarrow> fval \<Rightarrow> nat \<Rightarrow> nat \<Rightarrow> config \<Rightarrow> fval list \<Rightarrow> error + fval list" where
  "backward_row label_idx dloss_row logsumexp vocab_size BLOCK_SIZE cfg logits_row =
     launch (cross_entropy_backward label_idx dloss_row logsumexp vocab_size BLOCK_SIZE cfg)
       [0..<n_blocks_of vocab_size BLOCK_SIZE] logits_row"

text \<open>
  \<^verbatim>\<open>Fast_CrossEntropyLoss.backward\<close>: the logits buffer after the launch, which is the
  gradient it returns. The upstream gradient is its storage and its stride
  (\<^verbatim>\<open>dlosses.stride(0)\<close>); the kernel reads it only on a row whose label is not \<open>-100\<close>.
\<close>

definition Fast_CrossEntropyLoss_backward ::
  "saved_state \<Rightarrow> fval list \<Rightarrow> nat \<Rightarrow> error + fval list list" where
  "Fast_CrossEntropyLoss_backward ctx dlosses dloss_row_stride =
     (let logits = saved_logits ctx;
          vocab_size = vocab_size_of logits;
          BLOCK_SIZE = 4096
      in all_rows (map (\<lambda>row_idx.
             case read_at (saved_labels ctx) row_idx of
               Inl e \<Rightarrow> Inl e
             | Inr label_idx \<Rightarrow>
                 (case (if label_idx \<noteq> - 100 then read_at dlosses (row_idx * dloss_row_stride)
                        else Inr (Fin 0)) of
                    Inl e \<Rightarrow> Inl e
                  | Inr dloss \<Rightarrow>
                      (case read_at (saved_logsumexp ctx) row_idx of
                         Inl e \<Rightarrow> Inl e
                       | Inr logsumexp \<Rightarrow>
                           backward_row label_idx dloss logsumexp vocab_size BLOCK_SIZE
                             (saved_config ctx) (logits ! row_idx))))
           [0..<length logits]))"

section \<open>The entry point\<close>

text \<open>\<^verbatim>\<open>torch.count_nonzero\<close> of a boolean tensor and \<^verbatim>\<open>loss.sum()\<close>.\<close>

definition count_nonzero :: "bool list \<Rightarrow> nat" where
  "count_nonzero bs = length (filter (\<lambda>b. b) bs)"

definition torch_sum :: "fval list \<Rightarrow> fval" where
  "torch_sum xs = foldr fadd xs (Fin 0)"

text \<open>
  \<^verbatim>\<open>fast_cross_entropy_loss\<close>: \<open>logits\<close> is a (batch, seq_len, vocab) tensor and
  \<open>labels\<close> a (batch, seq_len) tensor, as nested lists; the assertion compares the two
  leading dimensions, \<^verbatim>\<open>view\<close> flattens them.
\<close>

definition fast_cross_entropy_loss ::
  "fval \<Rightarrow> fval list list list \<Rightarrow> i32 list list \<Rightarrow> real \<Rightarrow> real \<Rightarrow> error + fval" where
  "fast_cross_entropy_loss uninit logits labels logit_softcapping logit_scaling =
     (if map length labels \<noteq> map length logits then Inl AssertionError
      else case Fast_CrossEntropyLoss_forward uninit (concat logits) (concat labels)
                  logit_softcapping logit_scaling of
             Inl e \<Rightarrow> Inl e
           | Inr (loss, ctx) \<Rightarrow>
               let n_items = count_nonzero (map (\<lambda>l. l \<noteq> - 100) (concat labels))
               in Inr (fdiv (torch_sum loss) (Fin (real n_items))))"


section \<open>What the kernels are to compute\<close>

text \<open>
  The formulas of the spec on real numbers, to state the results against. Section 4.2:
  scale first (\<open>s * x\<close>), softcap second (\<open>t * tanh (x / t)\<close>), each only when its parameter
  is not 0; the derivative is the product \<open>s * (1 - tanh\<^sup>2 (scaled_x / t))\<close> of the active
  factors.
\<close>

definition scaled :: "real \<Rightarrow> real \<Rightarrow> real" where
  "scaled s x = (if s \<noteq> 0 then s * x else x)"

definition pre_transform :: "real \<Rightarrow> real \<Rightarrow> real \<Rightarrow> real" where
  "pre_transform t s x = (if t \<noteq> 0 then t * tanh (scaled s x / t) else scaled s x)"

definition transform_derivative :: "real \<Rightarrow> real \<Rightarrow> real \<Rightarrow> real" where
  "transform_derivative t s x =
     (if s \<noteq> 0 then s else 1) * (if t \<noteq> 0 then 1 - (tanh (scaled s x / t))\<^sup>2 else 1)"

text \<open>The log-sum-exp of a vector of reals, \<open>log (sum (exp x))\<close>.\<close>

definition logsumexp_of :: "real list \<Rightarrow> real" where
  "logsumexp_of xs = ln (\<Sum>x\<leftarrow>xs. exp x)"

text \<open>What a lane adds to a sum of exponentials: nothing when it holds \<open>-inf\<close>.\<close>

fun exp_weight :: "fval \<Rightarrow> real" where
  "exp_weight (Fin x) = exp x"
| "exp_weight _ = 0"

text \<open>A lane that holds a finite number or \<open>-inf\<close>.\<close>

fun below_inf :: "fval \<Rightarrow> bool" where
  "below_inf (Fin x) = True"
| "below_inf NInf = True"
| "below_inf _ = False"

text \<open>Section 3: a label is a column index in \<open>[0, vocab_size)\<close> or the ignore sentinel.\<close>

definition valid_label :: "nat \<Rightarrow> i32 \<Rightarrow> bool" where
  "valid_label vocab_size l = (l = - 100 \<or> (0 \<le> sint l \<and> sint l < int vocab_size))"

text \<open>
  The log-sum-exp the program of block \<open>k\<close> computes from the lanes it loads, and the
  value the program of chunk 0 stores into the loss slot when the load at the label is in
  bounds.
\<close>

definition block_logsumexp :: "config \<Rightarrow> fval list \<Rightarrow> nat \<Rightarrow> nat \<Rightarrow> nat \<Rightarrow> fval" where
  "block_logsumexp cfg row V B k =
     stable_logsumexp
       (map (transform cfg) (map (\<lambda>j. if j < V then row ! j else NInf) (col_offsets k B)))"

definition label_term :: "config \<Rightarrow> fval list \<Rightarrow> i32 \<Rightarrow> fval" where
  "label_term cfg row l =
     (if l \<noteq> - 100 then fmul (Fin (- 1)) (transform cfg (row ! nat (sint l))) else Fin 0)"

section \<open>Log-sum-exp\<close>

lemma tl_exp_shift: "below_inf l \<Longrightarrow> tl_exp (fsub l (Fin m)) = Fin (exp (- m) * exp_weight l)"
  by (cases l) (auto simp: fsub_def exp_diff exp_minus field_simps)

lemma tl_sum_shifted:
  "\<forall>l\<in>set ls. below_inf l \<Longrightarrow>
   tl_sum (map (\<lambda>x. tl_exp (fsub x (Fin m))) ls) = Fin (exp (- m) * (\<Sum>l\<leftarrow>ls. exp_weight l))"
  by (induction ls) (auto simp: tl_sum_def tl_exp_shift algebra_simps)

lemma tl_max_below_inf: "\<forall>l\<in>set ls. below_inf l \<Longrightarrow> below_inf (tl_max ls)"
proof (induction ls)
  case Nil
  then show ?case by (simp add: tl_max_def)
next
  case (Cons l ls)
  then have "below_inf l" "below_inf (foldr fmax ls NInf)" by (auto simp: tl_max_def)
  then show ?case
    by (cases l; cases "foldr fmax ls NInf") (auto simp: tl_max_def)
qed

lemma tl_max_Fin:
  "\<forall>l\<in>set ls. below_inf l \<Longrightarrow> Fin x \<in> set ls \<Longrightarrow> \<exists>m. tl_max ls = Fin m"
proof (induction ls)
  case Nil
  then show ?case by simp
next
  case (Cons l ls)
  then have ok: "below_inf l" "below_inf (tl_max ls)"
    using tl_max_below_inf by auto
  show ?case
  proof (cases "Fin x \<in> set ls")
    case True
    with Cons obtain m where "tl_max ls = Fin m" by auto
    with ok show ?thesis by (cases l) (auto simp: tl_max_def)
  next
    case False
    with Cons.prems have "l = Fin x" by simp
    with ok show ?thesis by (cases "tl_max ls") (auto simp: tl_max_def)
  qed
qed

lemma exp_weight_nonneg: "0 \<le> exp_weight l"
  by (cases l) auto

lemma sum_exp_weight_nonneg: "0 \<le> (\<Sum>l\<leftarrow>ls. exp_weight l)"
  by (induction ls) (auto simp: exp_weight_nonneg)

lemma sum_exp_weight_pos: "Fin x \<in> set ls \<Longrightarrow> 0 < (\<Sum>l\<leftarrow>ls. exp_weight l)"
proof (induction ls)
  case Nil
  then show ?case by simp
next
  case (Cons l ls)
  show ?case
  proof (cases "l = Fin x")
    case True
    have "0 < exp x + (\<Sum>l\<leftarrow>ls. exp_weight l)"
      using sum_exp_weight_nonneg [of ls] exp_gt_zero [of x] by linarith
    with True show ?thesis by simp
  next
    case False
    with Cons have "0 < (\<Sum>l\<leftarrow>ls. exp_weight l)" by simp
    then show ?thesis using exp_weight_nonneg [of l] by simp
  qed
qed

text \<open>
  On lanes that hold finite numbers or \<open>-inf\<close>, at least one of them finite, the stable
  form is the logarithm of the sum of the exponentials: the lanes at \<open>-inf\<close> add nothing.
\<close>

lemma stable_logsumexp_eq:
  assumes ok: "\<forall>l\<in>set ls. below_inf l" and fin: "Fin x \<in> set ls"
  shows "stable_logsumexp ls = Fin (ln (\<Sum>l\<leftarrow>ls. exp_weight l))"
proof -
  obtain m where m: "tl_max ls = Fin m" using tl_max_Fin [OF ok fin] by blast
  have pos: "0 < (\<Sum>l\<leftarrow>ls. exp_weight l)" using sum_exp_weight_pos [OF fin] .
  then have pos': "0 < exp (- m) * (\<Sum>l\<leftarrow>ls. exp_weight l)" by simp
  have "ln (exp (- m) * (\<Sum>l\<leftarrow>ls. exp_weight l)) = - m + ln (\<Sum>l\<leftarrow>ls. exp_weight l)"
    using pos by (simp add: ln_mult)
  then show ?thesis
    using pos' by (simp add: stable_logsumexp_def m tl_sum_shifted [OF ok])
qed

lemma stable_logsumexp_Fin:
  "xs \<noteq> [] \<Longrightarrow> stable_logsumexp (map Fin xs) = Fin (logsumexp_of xs)"
proof -
  assume ne: "xs \<noteq> []"
  then obtain x where "Fin x \<in> set (map Fin xs)" by (cases xs) auto
  moreover have "\<forall>l\<in>set (map Fin xs). below_inf l" by auto
  ultimately have "stable_logsumexp (map Fin xs) = Fin (ln (\<Sum>l\<leftarrow>map Fin xs. exp_weight l))"
    by (rule stable_logsumexp_eq [rotated])
  moreover have "(\<Sum>l\<leftarrow>map Fin xs. exp_weight l) = (\<Sum>x\<leftarrow>xs. exp x)"
    by (simp add: comp_def)
  ultimately show ?thesis by (simp add: logsumexp_of_def)
qed

lemma sum_exp_nonneg: "0 \<le> (\<Sum>x\<leftarrow>xs. exp (x::real))"
  by (induction xs) auto

lemma sum_exp_pos: "xs \<noteq> [] \<Longrightarrow> 0 < (\<Sum>x\<leftarrow>xs. exp (x::real))"
proof (cases xs)
  case Nil
  assume "xs \<noteq> []"
  with Nil show ?thesis by simp
next
  case (Cons a ys)
  have "0 < exp a + (\<Sum>x\<leftarrow>ys. exp x)"
    using sum_exp_nonneg [of ys] exp_gt_zero [of a] by linarith
  with Cons show ?thesis by simp
qed

lemma sum_list_exp_chunks:
  "\<forall>c\<in>set css. c \<noteq> [] \<Longrightarrow>
   (\<Sum>c\<leftarrow>css. exp (logsumexp_of c)) = (\<Sum>x\<leftarrow>concat css. exp x)"
  by (induction css) (auto simp: logsumexp_of_def sum_exp_pos)

lemma tl_max_map_Fin: "xs \<noteq> [] \<Longrightarrow> tl_max (map Fin xs) = Fin (Max (set xs))"
proof (induction xs)
  case Nil
  then show ?case by simp
next
  case (Cons a xs)
  show ?case
  proof (cases "xs = []")
    case True
    then show ?thesis by (simp add: tl_max_def)
  next
    case False
    with Cons have "tl_max (map Fin xs) = Fin (Max (set xs))" by simp
    then have "foldr fmax (map Fin xs) NInf = Fin (Max (set xs))" by (simp add: tl_max_def)
    then show ?thesis using False by (simp add: tl_max_def)
  qed
qed

lemma tl_sum_map_Fin: "tl_sum (map Fin xs) = Fin (sum_list xs)"
  by (induction xs) (auto simp: tl_sum_def)

lemma stable_logsumexp_max_form:
  assumes "xs \<noteq> []"
  shows "stable_logsumexp (map Fin xs) =
         Fin (Max (set xs) + ln (\<Sum>x\<leftarrow>xs. exp (x - Max (set xs))))"
proof -
  have "map (\<lambda>x. tl_exp (fsub x (Fin (Max (set xs))))) (map Fin xs) =
        map Fin (map (\<lambda>x. exp (x - Max (set xs))) xs)"
    by (simp add: fsub_def)
  moreover have "0 < (\<Sum>x\<leftarrow>xs. exp (x - Max (set xs)))"
    using sum_exp_pos [of "map (\<lambda>x. x - Max (set xs)) xs"] assms by (simp add: comp_def)
  ultimately show ?thesis
    using assms by (simp add: stable_logsumexp_def tl_max_map_Fin tl_sum_map_Fin del: map_map)
qed

text \<open>
  C4. For every vector of finite reals cut into contiguous non-empty chunks \<open>css\<close> (of any
  widths, so also with a shorter last chunk), the log-sum-exp of the per-chunk log-sum-exp
  values, as line 312 reduces them, is the log-sum-exp of the whole vector \<open>concat css\<close>,
  and that value is the stable form \<open>max x + log (sum (exp (x - max x)))\<close>.
\<close>

theorem logsumexp_chunk_identity:
  assumes "css \<noteq> []" and "\<forall>c\<in>set css. c \<noteq> []"
  shows "torch_logsumexp (map (\<lambda>c. stable_logsumexp (map Fin c)) css) =
           stable_logsumexp (map Fin (concat css)) \<and>
         stable_logsumexp (map Fin (concat css)) =
           Fin (Max (set (concat css)) +
                ln (\<Sum>x\<leftarrow>concat css. exp (x - Max (set (concat css)))))"
proof -
  have chunk: "map (\<lambda>c. stable_logsumexp (map Fin c)) css = map Fin (map logsumexp_of css)"
    using assms(2) by (simp add: stable_logsumexp_Fin)
  have ne: "concat css \<noteq> []" using assms by (cases css) auto
  have "torch_logsumexp (map Fin (map logsumexp_of css)) =
        Fin (logsumexp_of (map logsumexp_of css))"
    using assms(1) stable_logsumexp_Fin [of "map logsumexp_of css"]
    by (simp add: torch_logsumexp_def)
  also have "logsumexp_of (map logsumexp_of css) = logsumexp_of (concat css)"
    using sum_list_exp_chunks [OF assms(2)] by (simp add: logsumexp_of_def comp_def)
  finally have "torch_logsumexp (map (\<lambda>c. stable_logsumexp (map Fin c)) css) =
                stable_logsumexp (map Fin (concat css))"
    using ne by (simp add: chunk stable_logsumexp_Fin)
  then show ?thesis using stable_logsumexp_max_form [OF ne] by simp
qed

theorem logsumexp_chunk_identity_witness:
  "torch_logsumexp (map (\<lambda>c. stable_logsumexp (map Fin c)) [[0, 1], [2]]) =
     stable_logsumexp (map Fin [0, 1, 2]) \<and>
   stable_logsumexp (map Fin [0, 1, 2]) = Fin (2 + ln (exp (- 2) + (exp (- 1) + 1)))"
  using logsumexp_chunk_identity [of "[[0, 1], [2]]"] by simp

section \<open>Loads, stores and launches\<close>

lemma tl_load_masked_ok:
  "V \<le> length row \<Longrightarrow>
   tl_load_masked row V offs = Inr (map (\<lambda>j. if j < V then row ! j else NInf) offs)"
  by (simp add: tl_load_masked_def list_all_iff)

lemma launch_append:
  "launch p (ks @ [k]) st = (case launch p ks st of Inl e \<Rightarrow> Inl e | Inr st' \<Rightarrow> p k st')"
  by (induction ks arbitrary: st) (auto split: sum.splits)

lemma set_col_offsets: "set (col_offsets k B) = {k * B ..< k * B + B}"
  by (auto simp: col_offsets_def)

lemma store_fold_length:
  "length (fold (\<lambda>j buf. if j < V then buf[j := h j] else buf) offs buf) = length buf"
  by (induction offs arbitrary: buf) auto

lemma store_fold_nth:
  "i < length buf \<Longrightarrow>
   fold (\<lambda>j buf. if j < V then buf[j := h j] else buf) offs buf ! i =
     (if i \<in> set offs \<and> i < V then h i else buf ! i)"
proof (induction offs arbitrary: buf)
  case Nil
  then show ?case by simp
next
  case (Cons j offs)
  then show ?case by (auto simp: nth_list_update)
qed

lemma tl_store_masked_map:
  "tl_store_masked row V offs (map2 f offs (map g offs)) =
   fold (\<lambda>j buf. if j < V then buf[j := f j (g j)] else buf) offs row"
proof -
  have "zip offs (map2 f offs (map g offs)) = map (\<lambda>j. (j, f j (g j))) offs"
    by (induction offs) auto
  then show ?thesis
    by (simp add: tl_store_masked_def fold_map comp_def)
qed

section \<open>The backward launch\<close>

lemma cross_entropy_backward_block:
  assumes "V \<le> length row"
  shows "\<exists>buf. cross_entropy_backward l d lse V B cfg k row = Inr buf \<and> length buf = length row \<and>
     (\<forall>i < length row. buf ! i =
        (if k * B \<le> i \<and> i < k * B + B \<and> i < V
         then backward_lane cfg l lse (if l \<noteq> - 100 then d else Fin 0) i (row ! i)
         else row ! i))"
  using assms
  by (simp add: cross_entropy_backward_def tl_load_masked_ok tl_store_masked_map
      store_fold_length store_fold_nth set_col_offsets Let_def)

lemma backward_launch_prefix:
  assumes "V \<le> length row"
  shows "\<exists>buf. launch (cross_entropy_backward l d lse V B cfg) [0..<n] row = Inr buf \<and>
           length buf = length row \<and>
           (\<forall>i < length row. buf ! i =
              (if i < n * B \<and> i < V
               then backward_lane cfg l lse (if l \<noteq> - 100 then d else Fin 0) i (row ! i)
               else row ! i))"
proof (induction n)
  case 0
  then show ?case by simp
next
  case (Suc n)
  then obtain buf where buf: "launch (cross_entropy_backward l d lse V B cfg) [0..<n] row = Inr buf"
    "length buf = length row"
    "\<forall>i < length row. buf ! i =
        (if i < n * B \<and> i < V
         then backward_lane cfg l lse (if l \<noteq> - 100 then d else Fin 0) i (row ! i)
         else row ! i)"
    by blast
  from assms buf(2) have "V \<le> length buf" by simp
  from cross_entropy_backward_block [OF this, of l d lse B cfg n]
  obtain buf' where buf': "cross_entropy_backward l d lse V B cfg n buf = Inr buf'"
    "length buf' = length buf"
    "\<forall>i < length buf. buf' ! i =
        (if n * B \<le> i \<and> i < n * B + B \<and> i < V
         then backward_lane cfg l lse (if l \<noteq> - 100 then d else Fin 0) i (buf ! i)
         else buf ! i)"
    by blast
  have "launch (cross_entropy_backward l d lse V B cfg) [0..<Suc n] row = Inr buf'"
    by (simp add: launch_append buf(1) buf'(1))
  moreover have "length buf' = length row" using buf(2) buf'(2) by simp
  moreover have "\<forall>i < length row. buf' ! i =
        (if i < Suc n * B \<and> i < V
         then backward_lane cfg l lse (if l \<noteq> - 100 then d else Fin 0) i (row ! i)
         else row ! i)"
    using buf(2,3) buf'(3) by (auto simp: not_less)
  ultimately show ?case by blast
qed

lemma n_blocks_cover: "0 < B \<Longrightarrow> V \<le> n_blocks_of V B * B"
proof -
  assume B: "0 < B"
  have eq: "V div B * B + V mod B = V" by (rule div_mult_mod_eq)
  have lt: "V mod B < B" using B by simp
  show ?thesis
  proof (cases "V mod B = 0")
    case True
    with eq show ?thesis by (simp add: n_blocks_of_def)
  next
    case False
    have "V \<le> V div B * B + B" using eq lt by linarith
    with False show ?thesis by (simp add: n_blocks_of_def Let_def)
  qed
qed

lemma backward_row_eq:
  assumes "length row = V" and "0 < B"
  shows "backward_row l d lse V B cfg row =
         Inr (map (\<lambda>i. backward_lane cfg l lse (if l \<noteq> - 100 then d else Fin 0) i (row ! i)) [0..<V])"
proof -
  from assms have "V \<le> length row" by simp
  from backward_launch_prefix [OF this, of l d lse B cfg "n_blocks_of V B"]
  obtain buf where buf: "backward_row l d lse V B cfg row = Inr buf" "length buf = length row"
    "\<forall>i < length row. buf ! i =
        (if i < n_blocks_of V B * B \<and> i < V
         then backward_lane cfg l lse (if l \<noteq> - 100 then d else Fin 0) i (row ! i)
         else row ! i)"
    unfolding backward_row_def by blast
  have "buf = map (\<lambda>i. backward_lane cfg l lse (if l \<noteq> - 100 then d else Fin 0) i (row ! i)) [0..<V]"
  proof (rule nth_equalityI)
    show "length buf = length (map (\<lambda>i. backward_lane cfg l lse (if l \<noteq> - 100 then d else Fin 0) i (row ! i)) [0..<V])"
      using buf(2) assms by simp
  next
    fix i assume "i < length buf"
    then have i: "i < V" using buf(2) assms by simp
    then have "i < n_blocks_of V B * B" using n_blocks_cover [OF assms(2), of V] by simp
    with i buf(3) assms show "buf ! i = map (\<lambda>i. backward_lane cfg l lse (if l \<noteq> - 100 then d else Fin 0) i (row ! i)) [0..<V] ! i"
      by simp
  qed
  with buf(1) show ?thesis by simp
qed

lemma transform_Fin:
  "transform (kernel_config t s) (Fin x) = Fin (pre_transform t s x)"
  by (simp add: transform_def softcap_logit_def scale_logit_def kernel_config_def
      pre_transform_def scaled_def)

lemma backward_lane_Fin:
  "backward_lane (kernel_config t s) l (Fin L) (Fin d) i (Fin x) =
     Fin (d * ((exp (pre_transform t s x - L) - (if int i = sint l then 1 else 0)) *
               transform_derivative t s x))"
  by (simp add: backward_lane_def kernel_config_def pre_transform_def scaled_def
      transform_derivative_def fsub_def Let_def power2_eq_square mult.commute)

text \<open>
  C2. On a row of finite logits \<open>xs\<close> with a finite saved log-sum-exp \<open>L\<close> and a finite
  upstream gradient \<open>d\<close>, the backward launch over the blocks that cover the vocabulary (of
  any block width) overwrites every column \<open>j\<close> of the row with
  \<open>dloss * ((exp (x' - L) - [j = label]) * derivative)\<close>: \<open>x'\<close> is the forward pre-transform
  of the raw logit (scale first, softcap on the scaled value, which is what the forward
  kernels apply), 1 is subtracted at the label column before the product with the composed
  derivative \<open>s * (1 - tanh\<^sup>2 (scaled_x / t))\<close> of the active factors, and the factor
  \<open>dloss\<close> comes last. \<open>dloss\<close> is the upstream gradient of the row, and 0 on a row whose
  label is \<open>-100\<close>.
\<close>

theorem backward_gradient_formula:
  assumes "length xs = V" and "0 < B"
  shows "backward_row l (Fin d) (Fin L) V B (kernel_config t s) (map Fin xs) =
           Inr (map (\<lambda>j. Fin ((if l \<noteq> - 100 then d else 0) *
                              ((exp (pre_transform t s (xs ! j) - L) -
                                (if int j = sint l then 1 else 0)) *
                               transform_derivative t s (xs ! j))))
                 [0..<V]) \<and>
         (\<forall>x. transform (kernel_config t s) (Fin x) = Fin (pre_transform t s x)) \<and>
         (\<forall>x. pre_transform t s x =
                (if t \<noteq> 0 then t * tanh ((if s \<noteq> 0 then s * x else x) / t)
                 else (if s \<noteq> 0 then s * x else x))) \<and>
         (\<forall>x. transform_derivative t s x =
                (if s \<noteq> 0 then s else 1) *
                (if t \<noteq> 0 then 1 - (tanh ((if s \<noteq> 0 then s * x else x) / t))\<^sup>2 else 1))"
proof -
  have len: "length (map Fin xs) = V" using assms(1) by simp
  have lane: "backward_lane (kernel_config t s) l (Fin L) (if l \<noteq> - 100 then Fin d else Fin 0) j
                (map Fin xs ! j) =
              Fin ((if l \<noteq> - 100 then d else 0) *
                   ((exp (pre_transform t s (xs ! j) - L) - (if int j = sint l then 1 else 0)) *
                    transform_derivative t s (xs ! j)))"
    if "j < V" for j
  proof -
    have "(if l \<noteq> - 100 then Fin d else Fin 0) = Fin (if l \<noteq> - 100 then d else 0)" by simp
    moreover have "map Fin xs ! j = Fin (xs ! j)" using that assms(1) by simp
    ultimately show ?thesis by (simp only: backward_lane_Fin)
  qed
  have "backward_row l (Fin d) (Fin L) V B (kernel_config t s) (map Fin xs) =
        Inr (map (\<lambda>j. backward_lane (kernel_config t s) l (Fin L)
                        (if l \<noteq> - 100 then Fin d else Fin 0) j (map Fin xs ! j)) [0..<V])"
    by (rule backward_row_eq [OF len assms(2)])
  also have "map (\<lambda>j. backward_lane (kernel_config t s) l (Fin L)
                        (if l \<noteq> - 100 then Fin d else Fin 0) j (map Fin xs ! j)) [0..<V] =
             map (\<lambda>j. Fin ((if l \<noteq> - 100 then d else 0) *
                              ((exp (pre_transform t s (xs ! j) - L) -
                                (if int j = sint l then 1 else 0)) *
                               transform_derivative t s (xs ! j)))) [0..<V]"
    by (rule map_cong) (auto simp: lane)
  finally show ?thesis
    by (simp add: transform_Fin) (simp add: pre_transform_def transform_derivative_def scaled_def)
qed

theorem backward_gradient_formula_witness:
  "backward_row 2 (Fin 1) (Fin 4) 4 2 (kernel_config 0 0) (map Fin [1, 2, 3, 4]) =
     Inr [Fin (exp (- 3)), Fin (exp (- 2)), Fin (exp (- 1) - 1), Fin 1]"
  using backward_gradient_formula [of "[1, 2, 3, 4]" 4 2 2 1 4 0 0]
  by (simp add: upt_rec pre_transform_def scaled_def transform_derivative_def)

text \<open>
  C9. The program of a (row, block) pair on a row whose label is \<open>-100\<close> does not depend
  on the upstream gradient \<open>d\<close>, whatever it holds: the kernel takes 0 in its place. On a
  row of finite logits with a finite saved log-sum-exp, the launch then writes 0 into every
  column of the row, for every upstream gradient.
\<close>

theorem ignored_row_gradient_ignores_upstream:
  assumes "length xs = V" and "0 < B"
  shows "cross_entropy_backward (- 100) d lse V B cfg k row =
           cross_entropy_backward (- 100) (Fin 0) lse V B cfg k row \<and>
         backward_row (- 100) d (Fin L) V B (kernel_config t s) (map Fin xs) =
           Inr (replicate V (Fin 0))"
proof -
  have len: "length (map Fin xs) = V" using assms(1) by simp
  have "backward_lane (kernel_config t s) (- 100) (Fin L) (Fin 0) j (map Fin xs ! j) = Fin 0"
    if "j < V" for j
    using that assms(1) backward_lane_Fin [of t s "- 100" L 0 j "xs ! j"] by simp
  then have "map (\<lambda>j. backward_lane (kernel_config t s) (- 100) (Fin L) (Fin 0) j
                        (map Fin xs ! j)) [0..<V] = map (\<lambda>j. Fin 0) [0..<V]"
    by (intro map_cong) auto
  then have "backward_row (- 100) d (Fin L) V B (kernel_config t s) (map Fin xs) =
             Inr (replicate V (Fin 0))"
    using backward_row_eq [OF len assms(2), of "- 100" d "Fin L" "kernel_config t s"]
    by (simp add: map_replicate_const)
  then show ?thesis by (simp add: cross_entropy_backward_def)
qed

theorem ignored_row_gradient_ignores_upstream_witness:
  "cross_entropy_backward (- 100) (Fin 7) (Fin 4) 4 2 (kernel_config 30 0) 1
       [Fin 1, Fin 2, Fin 3, Fin 4] =
     cross_entropy_backward (- 100) (Fin 0) (Fin 4) 4 2 (kernel_config 30 0) 1
       [Fin 1, Fin 2, Fin 3, Fin 4] \<and>
   backward_row (- 100) (Fin 7) (Fin 4) 4 2 (kernel_config 30 0) (map Fin [1, 2, 3, 4]) =
     Inr [Fin 0, Fin 0, Fin 0, Fin 0]"
  using ignored_row_gradient_ignores_upstream
          [of "[1, 2, 3, 4]" 4 2 "Fin 7" "Fin 4" "kernel_config 30 0" 1
              "[Fin 1, Fin 2, Fin 3, Fin 4]" 4 30 0]
  by (simp add: numeral_eq_Suc)

section \<open>The forward programs\<close>

lemma cross_entropy_forward_eq:
  assumes "length row = V"
  shows "cross_entropy_forward row l V B cfg =
     (if valid_label V l
      then Inr (if l \<noteq> - 100
                then fsub (block_logsumexp cfg row V B 0) (transform cfg (row ! nat (sint l)))
                else Fin 0,
                block_logsumexp cfg row V B 0)
      else Inl OutOfBounds)"
  using assms
  by (auto simp: cross_entropy_forward_def tl_load_masked_ok block_logsumexp_def Let_def
      valid_label_def tl_load_def)

lemma chunked_program_eq:
  assumes "length row = V"
  shows "chunked_cross_entropy_forward row l V B cfg k st =
     (if k = 0 \<and> \<not> valid_label V l then Inl OutOfBounds
      else Inr (if k = 0 then label_term cfg row l else fst st,
                (snd st)[k := block_logsumexp cfg row V B k]))"
  using assms
  by (auto simp: chunked_cross_entropy_forward_def tl_load_masked_ok block_logsumexp_def Let_def
      valid_label_def tl_load_def label_term_def)

lemma chunked_launch_prefix:
  assumes "length row = V" and "valid_label V l"
  shows "m \<le> n \<Longrightarrow>
     launch (chunked_cross_entropy_forward row l V B cfg) [0..<m] (u, replicate n u) =
       Inr (if m = 0 then u else label_term cfg row l,
            map (block_logsumexp cfg row V B) [0..<m] @ replicate (n - m) u)"
proof (induction m)
  case 0
  then show ?case by simp
next
  case (Suc m)
  then have m: "m < n" by simp
  have upd: "(map (block_logsumexp cfg row V B) [0..<m] @ replicate (n - m) u)[m := v] =
             map (block_logsumexp cfg row V B) [0..<m] @ v # replicate (n - Suc m) u" for v
  proof -
    have "replicate (n - m) u = u # replicate (n - Suc m) u"
      using m by (cases "n - m") auto
    then show ?thesis by (simp add: list_update_append)
  qed
  from Suc m show ?case
    by (simp add: launch_append chunked_program_eq [OF assms(1)] assms(2) upd)
qed

lemma chunked_row_eq:
  assumes "length row = V" and "valid_label V l"
  shows "chunked_row u cfg V n B row l =
     Inr (if l = - 100 then Fin 0
          else fadd (if n = 0 then u else label_term cfg row l)
                 (torch_logsumexp (map (block_logsumexp cfg row V B) [0..<n])),
          torch_logsumexp (map (block_logsumexp cfg row V B) [0..<n]))"
  using chunked_launch_prefix [OF assms, of n n B cfg u]
  by (simp add: chunked_row_def Let_def)

text \<open>
  C10. On a row of \<open>vocab_size\<close> columns, the load of the logit at the label column, which
  has no mask, is the one load of the forward kernels that can leave the row: the single-pass
  program and the program of chunk 0 return their stores when the label is \<open>-100\<close> or a
  column index in \<open>[0, vocab_size)\<close>, and read out of bounds for every other label. The
  programs of the other chunks do not load the label's logit.
\<close>

theorem label_load_in_bounds_iff_valid:
  assumes "length row = V"
  shows "(valid_label V l \<longrightarrow>
            (\<exists>r. cross_entropy_forward row l V B cfg = Inr r) \<and>
            (\<exists>r. chunked_cross_entropy_forward row l V B cfg 0 st = Inr r)) \<and>
         (\<not> valid_label V l \<longrightarrow>
            cross_entropy_forward row l V B cfg = Inl OutOfBounds \<and>
            chunked_cross_entropy_forward row l V B cfg 0 st = Inl OutOfBounds) \<and>
         (0 < k \<longrightarrow> (\<exists>r. chunked_cross_entropy_forward row l V B cfg k st = Inr r)) \<and>
         (valid_label V l \<longleftrightarrow> l = - 100 \<or> (0 \<le> sint l \<and> sint l < int V))"
  using assms
  by (simp add: cross_entropy_forward_eq chunked_program_eq) (simp add: valid_label_def)

theorem label_load_in_bounds_iff_valid_witness:
  "(\<exists>r. cross_entropy_forward [Fin 1, Fin 2] 1 2 2 (kernel_config 0 0) = Inr r) \<and>
   (\<exists>r. chunked_cross_entropy_forward [Fin 1, Fin 2] (- 100) 2 2 (kernel_config 0 0) 0
           (NaN, [NaN]) = Inr r) \<and>
   cross_entropy_forward [Fin 1, Fin 2] 2 2 2 (kernel_config 0 0) = Inl OutOfBounds \<and>
   chunked_cross_entropy_forward [Fin 1, Fin 2] (- 1) 2 2 (kernel_config 0 0) 0 (NaN, [NaN]) =
     Inl OutOfBounds"
  using label_load_in_bounds_iff_valid [of "[Fin 1, Fin 2]" 2 1 2 "kernel_config 0 0"
          "(NaN, [NaN])" 1]
        label_load_in_bounds_iff_valid [of "[Fin 1, Fin 2]" 2 "- 100" 2 "kernel_config 0 0"
          "(NaN, [NaN])" 1]
        label_load_in_bounds_iff_valid [of "[Fin 1, Fin 2]" 2 2 2 "kernel_config 0 0"
          "(NaN, [NaN])" 1]
        label_load_in_bounds_iff_valid [of "[Fin 1, Fin 2]" 2 "- 1" 2 "kernel_config 0 0"
          "(NaN, [NaN])" 1]
  by (simp add: valid_label_def)

text \<open>
  C5. A row whose label is the ignore sentinel \<open>-100\<close> has the loss 0 from the single-pass
  kernel and from the chunked path (whatever the chunk kernels left in the slots, the mask
  after the addition of line 313 writes 0), and the backward launch over the row (finite
  logits, and a finite saved log-sum-exp, which is what the forward paths save on such a
  row) writes 0 into every column.
\<close>

theorem ignored_row_zero_loss_and_gradient:
  assumes "length xs = V" and "0 < B'"
  shows "(\<exists>lse. cross_entropy_forward (map Fin xs) (- 100) V B cfg = Inr (Fin 0, lse)) \<and>
         (\<exists>lse. chunked_row u cfg V n Bc (map Fin xs) (- 100) = Inr (Fin 0, lse)) \<and>
         backward_row (- 100) d (Fin L) V B' (kernel_config t s) (map Fin xs) =
           Inr (replicate V (Fin 0))"
proof -
  have len: "length (map Fin xs) = V" using assms(1) by simp
  have valid: "valid_label V (- 100)" by (simp add: valid_label_def)
  have "backward_lane (kernel_config t s) (- 100) (Fin L) (Fin 0) j (map Fin xs ! j) = Fin 0"
    if "j < V" for j
    using that assms(1) backward_lane_Fin [of t s "- 100" L 0 j "xs ! j"] by simp
  then have "map (\<lambda>j. backward_lane (kernel_config t s) (- 100) (Fin L) (Fin 0) j
                        (map Fin xs ! j)) [0..<V] = map (\<lambda>j. Fin 0) [0..<V]"
    by (intro map_cong) auto
  then have "backward_row (- 100) d (Fin L) V B' (kernel_config t s) (map Fin xs) =
             Inr (replicate V (Fin 0))"
    using backward_row_eq [OF len assms(2), of "- 100" d "Fin L" "kernel_config t s"]
    by (simp add: map_replicate_const)
  then show ?thesis
    using valid by (simp add: cross_entropy_forward_eq [OF len] chunked_row_eq [OF len])
qed

theorem ignored_row_zero_loss_and_gradient_witness:
  "(\<exists>lse. cross_entropy_forward (map Fin [1, 2, 3]) (- 100) 3 4 (kernel_config 30 0) =
       Inr (Fin 0, lse)) \<and>
   (\<exists>lse. chunked_row NaN (kernel_config 30 0) 3 2 2 (map Fin [1, 2, 3]) (- 100) =
       Inr (Fin 0, lse)) \<and>
   backward_row (- 100) (Fin 1) (Fin 4) 3 2 (kernel_config 30 0) (map Fin [1, 2, 3]) =
     Inr [Fin 0, Fin 0, Fin 0]"
  using ignored_row_zero_loss_and_gradient
          [where xs = "[1, 2, 3]" and V = 3 and B' = 2 and B = 4 and cfg = "kernel_config 30 0"
             and u = NaN and n = 2 and Bc = 2 and d = "Fin 1" and L = 4 and t = 30 and s = 0]
  by (simp add: numeral_eq_Suc)

section \<open>The chunk partition\<close>

lemma n_blocks_ceiling: "0 < B \<Longrightarrow> int (n_blocks_of V B) = \<lceil>real V / real B\<rceil>"
proof -
  assume B: "0 < B"
  have eq: "V div B * B + V mod B = V" by (rule div_mult_mod_eq)
  have lt: "V mod B < B" using B by simp
  have req: "real V = real (V div B) * real B + real (V mod B)"
    using eq by (metis of_nat_add of_nat_mult)
  show ?thesis
  proof (cases "V mod B = 0")
    case True
    then have "real V / real B = real (V div B)" using req B by simp
    with True show ?thesis by (simp add: n_blocks_of_def)
  next
    case False
    have "real V / real B = real (V div B) + real (V mod B) / real B"
      using req B by (simp add: field_simps)
    moreover have "0 < real (V mod B) / real B" using False B by simp
    moreover have "real (V mod B) / real B < 1" using lt B by simp
    ultimately have "\<lceil>real V / real B\<rceil> = int (V div B) + 1"
      by (intro ceiling_unique) auto
    with False show ?thesis by (simp add: n_blocks_of_def Let_def)
  qed
qed

lemma n_blocks_one_iff: "0 < B \<Longrightarrow> 0 < V \<Longrightarrow> n_blocks_of V B = 1 \<longleftrightarrow> V \<le> B"
proof -
  assume B: "0 < B" and V: "0 < V"
  show ?thesis
  proof (cases "V < B")
    case True
    then show ?thesis using V by (simp add: n_blocks_of_def)
  next
    case False
    then have ge: "B \<le> V" by simp
    then have d: "1 \<le> V div B" using B by (simp add: Suc_leI div_greater_zero_iff)
    show ?thesis
    proof (cases "V = B")
      case True
      then show ?thesis using B by (simp add: n_blocks_of_def)
    next
      case False
      with ge have gt: "B < V" by simp
      have "V mod B \<noteq> 0 \<or> 2 \<le> V div B"
      proof (cases "V mod B = 0")
        case True
        then have "V = V div B * B" using div_mult_mod_eq [of V B] by simp
        with gt have "V div B \<noteq> 1" by auto
        with d show ?thesis by simp
      qed simp
      with d gt show ?thesis by (auto simp: n_blocks_of_def Let_def)
    qed
  qed
qed

lemma full_blocks_below:
  assumes "0 < B" and "Suc k < n_blocks_of V B"
  shows "Suc k * B \<le> V"
proof -
  have eq: "V div B * B + V mod B = V" by (rule div_mult_mod_eq)
  from assms(2) have "Suc k \<le> V div B"
    by (cases "V mod B = 0") (auto simp: n_blocks_of_def Let_def)
  then have "Suc k * B \<le> V div B * B" by (rule mult_le_mono1)
  with eq show ?thesis by linarith
qed

lemma block_of_column:
  assumes "0 < B" and "j < V"
  shows "\<exists>!k. k < n_blocks_of V B \<and> j \<in> set (col_offsets k B)"
proof (rule ex1I [of _ "j div B"])
  have "j < n_blocks_of V B * B" using n_blocks_cover [OF assms(1), of V] assms(2) by simp
  then have "j div B < n_blocks_of V B" using assms(1) by (simp add: less_mult_imp_div_less)
  moreover have "j div B * B \<le> j" by simp
  moreover have "j < j div B * B + B"
    using assms(1) div_mult_mod_eq [of j B] mod_less_divisor [of B j] by linarith
  ultimately show "j div B < n_blocks_of V B \<and> j \<in> set (col_offsets (j div B) B)"
    by (simp add: set_col_offsets)
next
  fix k assume "k < n_blocks_of V B \<and> j \<in> set (col_offsets k B)"
  then have "k * B \<le> j" "j < k * B + B" by (simp_all add: set_col_offsets)
  then show "k = j div B"
    using assms(1) by (metis add.commute div_nat_eqI mult.commute mult_Suc_right)
qed

section \<open>The entry point\<close>

lemma all_rows_cong:
  "(\<And>i. i \<in> set is \<Longrightarrow> f i = Inr (g i)) \<Longrightarrow> all_rows (map f is) = Inr (map g is)"
  by (induction "is") auto

lemma torch_sum_zeros: "torch_sum (replicate n (Fin 0)) = Fin 0"
  by (induction n) (auto simp: torch_sum_def)

lemma torch_sum_map_Fin: "torch_sum (map Fin rs) = Fin (sum_list rs)"
  by (induction rs) (auto simp: torch_sum_def)

lemma count_nonzero_none:
  "\<forall>l\<in>set ls. l = c \<Longrightarrow> count_nonzero (map (\<lambda>l. l \<noteq> c) ls) = 0"
  by (induction ls) (auto simp: count_nonzero_def)

lemma count_nonzero_filter:
  "count_nonzero (map P ls) = length (filter P ls)"
  by (induction ls) (auto simp: count_nonzero_def)

lemma length_concat_eq:
  "map length xss = map length yss \<Longrightarrow> length (concat xss) = length (concat yss)"
  by (simp add: length_concat)

lemma regular_nth: "regular rows \<Longrightarrow> i < length rows \<Longrightarrow> length (rows ! i) = vocab_size_of rows"
  by (simp add: regular_def list_all_length)

lemma forward_all_ignored:
  assumes reg: "regular rows" and len: "length ls = length rows"
    and ign: "\<forall>l\<in>set ls. l = - 100"
  shows "\<exists>ctx. Fast_CrossEntropyLoss_forward u rows ls t s =
           Inr (replicate (length rows) (Fin 0), ctx)"
proof -
  let ?V = "vocab_size_of rows"
  let ?cfg = "kernel_config t s"
  have valid: "valid_label ?V (- 100)" by (simp add: valid_label_def)
  have rd: "read_at ls i = Inr (- 100)" if "i < length rows" for i
    using that len ign by (simp add: read_at_def)
  have single: "single_pass_branch ?cfg ?V rows ls =
      Inr (replicate (length rows) (Fin 0),
           map (\<lambda>i. block_logsumexp ?cfg (rows ! i) ?V (calculate_settings ?V) 0) [0..<length rows])"
  proof -
    have "all_rows (map (\<lambda>row_idx.
                 case read_at ls row_idx of
                   Inl e \<Rightarrow> Inl e
                 | Inr label_idx \<Rightarrow>
                     cross_entropy_forward (rows ! row_idx) label_idx ?V (calculate_settings ?V) ?cfg)
               [0..<length rows]) =
          Inr (map (\<lambda>i. (Fin 0, block_logsumexp ?cfg (rows ! i) ?V (calculate_settings ?V) 0))
                 [0..<length rows])"
      by (rule all_rows_cong)
         (simp add: rd cross_entropy_forward_eq [OF regular_nth [OF reg]] valid)
    then show ?thesis
      by (simp add: single_pass_branch_def Let_def comp_def map_replicate_const)
  qed
  have chunked: "chunked_branch u ?cfg ?V n rows ls =
      Inr (replicate (length rows) (Fin 0),
           map (\<lambda>i. torch_logsumexp (map (block_logsumexp ?cfg (rows ! i) ?V MAX_FUSED_SIZE) [0..<n]))
             [0..<length rows])" for n
  proof -
    have "all_rows (map (\<lambda>row_idx.
               case read_at ls row_idx of
                 Inl e \<Rightarrow> Inl e
               | Inr label_idx \<Rightarrow>
                   chunked_row u ?cfg ?V n MAX_FUSED_SIZE (rows ! row_idx) label_idx)
             [0..<length rows]) =
          Inr (map (\<lambda>i. (Fin 0, torch_logsumexp
                               (map (block_logsumexp ?cfg (rows ! i) ?V MAX_FUSED_SIZE) [0..<n])))
                 [0..<length rows])"
      by (rule all_rows_cong)
         (simp add: rd chunked_row_eq [OF regular_nth [OF reg]] valid)
    then show ?thesis
      by (simp add: chunked_branch_def comp_def map_replicate_const)
  qed
  show ?thesis
    by (simp add: Fast_CrossEntropyLoss_forward_def Let_def single chunked)
qed

text \<open>
  C8. When every label of the batch is \<open>-100\<close> the entry point raises nothing: each loss is
  0, the count of valid labels is 0, and the quotient \<open>0 / 0\<close> it returns is not a number.
  The counterexample is a batch of one ignored position.
\<close>

theorem all_labels_ignored_counterexample:
  "fast_cross_entropy_loss (Fin 0) [[[Fin 1, Fin 2]]] [[- 100]] 0 0 = Inr NaN \<and>
   (\<forall>e. fast_cross_entropy_loss (Fin 0) [[[Fin 1, Fin 2]]] [[- 100]] 0 0 \<noteq> Inl e)"
  by (simp add: fast_cross_entropy_loss_def Fast_CrossEntropyLoss_forward_def vocab_size_of_def
      n_blocks_of_def MAX_FUSED_SIZE_def single_pass_branch_def read_at_def
      cross_entropy_forward_def tl_load_masked_def calculate_settings_def col_offsets_def
      count_nonzero_def torch_sum_def inf_signed_def kernel_config_def Let_def upt_rec)

text \<open>
  C8, as the code has it: for every batch of finite or infinite logits whose labels are all
  \<open>-100\<close> (the shapes agreeing, every row of the vocabulary's width), the entry point
  returns not-a-number and no error, with or without softcap and scale.
\<close>

theorem all_labels_ignored_returns_nan:
  assumes "map length labels = map length logits" and "regular (concat logits)"
    and "\<forall>l\<in>set (concat labels). l = - 100"
  shows "fast_cross_entropy_loss u logits labels t s = Inr NaN"
proof -
  have len: "length (concat labels) = length (concat logits)"
    using assms(1) by (rule length_concat_eq)
  from forward_all_ignored [OF assms(2) len assms(3), of u t s]
  obtain ctx where "Fast_CrossEntropyLoss_forward u (concat logits) (concat labels) t s =
           Inr (replicate (length (concat logits)) (Fin 0), ctx)" by blast
  then show ?thesis
    using assms(1) count_nonzero_none [OF assms(3)]
    by (simp add: fast_cross_entropy_loss_def torch_sum_zeros inf_signed_def)
qed

theorem all_labels_ignored_returns_nan_witness:
  "fast_cross_entropy_loss (Fin 0) [[[Fin 1, Fin 2], [Fin 3, Fin 4]]] [[- 100, - 100]] 30 0 =
     Inr NaN"
  using all_labels_ignored_returns_nan
          [of "[[- 100, - 100]]" "[[[Fin 1, Fin 2], [Fin 3, Fin 4]]]" "Fin 0" 30 0]
  by (simp add: regular_def vocab_size_of_def)

lemma concat_nth_uniform:
  "\<forall>r\<in>set xss. length r = m \<Longrightarrow> b < length xss \<Longrightarrow> q < m \<Longrightarrow>
   concat xss ! (b * m + q) = xss ! b ! q"
proof (induction xss arbitrary: b)
  case Nil
  then show ?case by simp
next
  case (Cons r xss)
  show ?case
  proof (cases b)
    case 0
    with Cons.prems show ?thesis by (simp add: nth_append)
  next
    case (Suc b')
    with Cons.prems have "concat xss ! (b' * m + q) = xss ! b' ! q"
      by (intro Cons.IH) auto
    moreover have "length r = m" using Cons.prems by simp
    ultimately show ?thesis using Suc by (simp add: nth_append)
  qed
qed

lemma length_concat_uniform:
  "\<forall>r\<in>set xss. length r = m \<Longrightarrow> length (concat xss) = length xss * m"
  by (induction xss) auto

text \<open>
  C6. For a (batch, seq, vocab) tensor of logits and a (batch, seq) tensor of labels of
  which at least one is not \<open>-100\<close>, the entry point runs the forward pass on the rows
  \<open>concat logits\<close> and the labels \<open>concat labels\<close> (row \<open>b * seq_len + q\<close> is position
  \<open>q\<close> of batch entry \<open>b\<close>) and, when the forward pass returns the per-row losses,
  returns their sum divided by the number of labels that are not \<open>-100\<close>, which is
  positive; on finite losses the result is that finite quotient.
\<close>

theorem scalar_loss_normalization:
  assumes shape: "map length labels = map length logits"
    and fwd: "Fast_CrossEntropyLoss_forward u (concat logits) (concat labels) t s =
                Inr (losses, ctx)"
    and some: "\<exists>l\<in>set (concat labels). l \<noteq> - 100"
  shows "fast_cross_entropy_loss u logits labels t s =
           Inr (fdiv (torch_sum losses)
                  (Fin (real (length (filter (\<lambda>l. l \<noteq> - 100) (concat labels)))))) \<and>
         0 < length (filter (\<lambda>l. l \<noteq> - 100) (concat labels)) \<and>
         (\<forall>rs. losses = map Fin rs \<longrightarrow>
            fast_cross_entropy_loss u logits labels t s =
              Inr (Fin (sum_list rs /
                        real (length (filter (\<lambda>l. l \<noteq> - 100) (concat labels)))))) \<and>
         (\<forall>seq_len. (\<forall>r\<in>set logits. length r = seq_len) \<longrightarrow>
            length (concat logits) = length logits * seq_len \<and>
            (\<forall>b < length logits. \<forall>q < seq_len.
               concat logits ! (b * seq_len + q) = logits ! b ! q \<and>
               concat labels ! (b * seq_len + q) = labels ! b ! q))"
proof -
  let ?n = "length (filter (\<lambda>l. l \<noteq> - 100) (concat labels))"
  have pos: "0 < ?n" using some by (simp add: filter_empty_conv length_greater_0_conv)
  have res: "fast_cross_entropy_loss u logits labels t s =
             Inr (fdiv (torch_sum losses) (Fin (real ?n)))"
    using shape fwd by (simp add: fast_cross_entropy_loss_def count_nonzero_filter)
  have fin: "fast_cross_entropy_loss u logits labels t s = Inr (Fin (sum_list rs / real ?n))"
    if "losses = map Fin rs" for rs
    using res pos that by (simp add: torch_sum_map_Fin)
  have flat: "length (concat logits) = length logits * m \<and>
            (\<forall>b < length logits. \<forall>q < m.
               concat logits ! (b * m + q) = logits ! b ! q \<and>
               concat labels ! (b * m + q) = labels ! b ! q)"
    if u: "\<forall>r\<in>set logits. length r = m" for m
  proof -
    have lab: "\<forall>r\<in>set labels. length r = m"
    proof
      fix r assume "r \<in> set labels"
      then have "length r \<in> set (map length labels)" by simp
      then have "length r \<in> set (map length logits)" using shape by simp
      then show "length r = m" using u by auto
    qed
    have len: "length labels = length logits" using shape by (rule map_eq_imp_length_eq)
    show ?thesis
      using concat_nth_uniform [OF u] concat_nth_uniform [OF lab] len
        length_concat_uniform [OF u] by simp
  qed
  show ?thesis using res pos fin flat by blast
qed

theorem scalar_loss_normalization_witness:
  "fast_cross_entropy_loss (Fin 0) [[[Fin 0, Fin 0], [Fin 0, Fin 0]]] [[1, - 100]] 0 0 =
     Inr (Fin (ln 2))"
proof -
  have fwd: "Fast_CrossEntropyLoss_forward (Fin 0) (concat [[[Fin 0, Fin 0], [Fin 0, Fin 0]]])
               (concat [[1, - 100]]) 0 0 =
             Inr (map Fin [ln 2, 0],
                  \<lparr>saved_logits = [[Fin 0, Fin 0], [Fin 0, Fin 0]],
                   saved_logsumexp = [Fin (ln 2), Fin (ln 2)],
                   saved_labels = [1, - 100], saved_config = kernel_config 0 0\<rparr>)"
    by (simp add: Fast_CrossEntropyLoss_forward_def vocab_size_of_def
      n_blocks_of_def MAX_FUSED_SIZE_def single_pass_branch_def read_at_def
      cross_entropy_forward_def tl_load_masked_def calculate_settings_def col_offsets_def
      kernel_config_def Let_def upt_rec transform_def softcap_logit_def scale_logit_def
      stable_logsumexp_def tl_max_def tl_sum_def fsub_def tl_load_def)
  have shape: "map length [[1, - 100 :: i32]] = map length [[[Fin 0, Fin 0], [Fin 0, Fin 0]]]"
    by simp
  have some: "\<exists>l\<in>set (concat [[1, - 100 :: i32]]). l \<noteq> - 100" by simp
  from scalar_loss_normalization [OF shape fwd some]
  have "\<forall>rs. map Fin [ln 2, 0] = map Fin rs \<longrightarrow>
            fast_cross_entropy_loss (Fin 0) [[[Fin 0, Fin 0], [Fin 0, Fin 0]]] [[1, - 100]] 0 0 =
              Inr (Fin (sum_list rs /
                        real (length (filter (\<lambda>l. l \<noteq> - 100) (concat [[1, - 100 :: i32]])))))"
    by blast
  then have "fast_cross_entropy_loss (Fin 0) [[[Fin 0, Fin 0], [Fin 0, Fin 0]]] [[1, - 100]] 0 0 =
              Inr (Fin (sum_list [ln 2, 0] /
                        real (length (filter (\<lambda>l. l \<noteq> - 100) (concat [[1, - 100 :: i32]])))))"
    by blast
  then show ?thesis by simp
qed

section \<open>The forward loss when the lanes beyond the vocabulary stay at \<open>-inf\<close>\<close>

lemma transform_NInf_off: "0 \<le> s \<Longrightarrow> transform (kernel_config 0 s) NInf = NInf"
  by (simp add: transform_def softcap_logit_def scale_logit_def kernel_config_def inf_signed_def)

lemma block_lanes_Fin:
  assumes "length xs = V"
  shows "map (transform (kernel_config t s))
           (map (\<lambda>j. if j < V then map Fin xs ! j else NInf) offs) =
         map (\<lambda>j. if j < V then Fin (pre_transform t s (xs ! j))
                   else transform (kernel_config t s) NInf) offs"
  using assms by (simp add: transform_Fin)

lemma block_logsumexp_eq:
  assumes len: "length xs = V"
    and some: "\<exists>j\<in>set (col_offsets k B). j < V"
    and pad: "transform (kernel_config t s) NInf = NInf \<or> (\<forall>j\<in>set (col_offsets k B). j < V)"
  shows "block_logsumexp (kernel_config t s) (map Fin xs) V B k =
         Fin (ln (\<Sum>j\<leftarrow>col_offsets k B. if j < V then exp (pre_transform t s (xs ! j)) else 0))"
proof -
  let ?offs = "col_offsets k B"
  let ?ls = "map (\<lambda>j. if j < V then Fin (pre_transform t s (xs ! j))
                   else transform (kernel_config t s) NInf) ?offs"
  have ok: "\<forall>l\<in>set ?ls. below_inf l" using pad by auto
  from some obtain j where "j \<in> set ?offs" "j < V" by blast
  then have fin: "Fin (pre_transform t s (xs ! j)) \<in> set ?ls" by force
  have w: "(\<Sum>l\<leftarrow>?ls. exp_weight l) =
           (\<Sum>j\<leftarrow>?offs. if j < V then exp (pre_transform t s (xs ! j)) else 0)"
  proof -
    have "map exp_weight ?ls =
          map (\<lambda>j. if j < V then exp (pre_transform t s (xs ! j)) else 0) ?offs"
      using pad by auto
    then show ?thesis by (simp only:)
  qed
  show ?thesis
    unfolding block_logsumexp_def block_lanes_Fin [OF len]
    using stable_logsumexp_eq [OF ok fin] w by simp
qed

lemma col_offsets_upt: "col_offsets n B = [n * B ..< n * B + B]"
  by (rule nth_equalityI) (simp_all add: col_offsets_def)

lemma upt_next_block: "[0..<Suc n * B] = [0..<n * B] @ [n * B ..< n * B + B]"
proof -
  have "Suc n * B = n * B + B" by simp
  then show ?thesis using upt_add_eq_append [of 0 "n * B" B] by (simp only: zero_le)
qed

lemma sum_blocks:
  "(\<Sum>k\<leftarrow>[0..<n]. \<Sum>j\<leftarrow>col_offsets k B. f j) = (\<Sum>j\<leftarrow>[0..<n * B]. (f j :: real))"
proof (induction n)
  case 0
  then show ?case by simp
next
  case (Suc n)
  have "(\<Sum>k\<leftarrow>[0..<Suc n]. \<Sum>j\<leftarrow>col_offsets k B. f j) =
        (\<Sum>k\<leftarrow>[0..<n]. \<Sum>j\<leftarrow>col_offsets k B. f j) + (\<Sum>j\<leftarrow>col_offsets n B. f j)"
    by simp
  also have "\<dots> = (\<Sum>j\<leftarrow>[0..<n * B]. f j) + (\<Sum>j\<leftarrow>[n * B ..< n * B + B]. f j)"
    using Suc.IH by (simp add: col_offsets_upt)
  also have "\<dots> = (\<Sum>j\<leftarrow>[0..<Suc n * B]. f j)"
    by (simp only: upt_next_block map_append sum_list_append)
  finally show ?case .
qed

lemma sum_columns:
  assumes "length xs = V" and "V \<le> m"
  shows "(\<Sum>j\<leftarrow>[0..<m]. if j < V then exp (g (xs ! j)) else (0::real)) = (\<Sum>x\<leftarrow>xs. exp (g x))"
proof -
  have split: "[0..<m] = [0..<V] @ [V..<m]"
    using assms(2) by (metis le_add_diff_inverse upt_add_eq_append zero_le)
  have a: "map (\<lambda>j. if j < V then exp (g (xs ! j)) else 0) [0..<V] = map (\<lambda>x. exp (g x)) xs"
    using assms(1) by (intro nth_equalityI) auto
  have b: "map (\<lambda>j. if j < V then exp (g (xs ! j)) else (0::real)) [V..<m] = map (\<lambda>j. 0) [V..<m]"
    by (intro map_cong) auto
  show ?thesis
    unfolding split by (simp only: map_append sum_list_append a b) simp
qed

lemma block_sum_pos:
  "\<exists>j\<in>set offs. j < V \<Longrightarrow> 0 < (\<Sum>j\<leftarrow>offs. if j < V then exp (g j) else (0::real))"
proof (induction offs)
  case Nil
  then show ?case by simp
next
  case (Cons a offs)
  have nn: "0 \<le> (\<Sum>j\<leftarrow>offs. if j < V then exp (g j) else (0::real))"
    by (rule sum_list_nonneg) auto
  show ?case
  proof (cases "a < V")
    case True
    have "0 < exp (g a) + (\<Sum>j\<leftarrow>offs. if j < V then exp (g j) else 0)"
      using nn exp_gt_zero [of "g a"] by linarith
    with True show ?thesis by simp
  next
    case False
    with Cons have "0 < (\<Sum>j\<leftarrow>offs. if j < V then exp (g j) else 0)" by auto
    with False show ?thesis by simp
  qed
qed

lemma block_has_column:
  assumes "0 < B" and "k < n_blocks_of V B"
  shows "k * B < V"
proof -
  have eq: "V div B * B + V mod B = V" by (rule div_mult_mod_eq)
  show ?thesis
  proof (cases "V mod B = 0")
    case True
    with assms(2) have "Suc k \<le> V div B" by (simp add: n_blocks_of_def)
    then have "Suc k * B \<le> V div B * B" by (rule mult_le_mono1)
    with eq True have "k * B + B \<le> V" by simp
    with assms(1) show ?thesis by linarith
  next
    case False
    with assms(2) have "k \<le> V div B" by (simp add: n_blocks_of_def Let_def)
    then have "k * B \<le> V div B * B" by (rule mult_le_mono1)
    moreover have "0 < V mod B" using False by simp
    ultimately show ?thesis using eq by linarith
  qed
qed

lemma single_pass_logsumexp:
  assumes len: "length xs = V" and V: "0 < V" and B: "V \<le> B"
    and pad: "(t = 0 \<and> 0 \<le> s) \<or> B = V"
  shows "block_logsumexp (kernel_config t s) (map Fin xs) V B 0 =
         Fin (logsumexp_of (map (pre_transform t s) xs))"
proof -
  have offs: "col_offsets 0 B = [0..<B]" by (simp add: col_offsets_upt)
  have some: "\<exists>j\<in>set (col_offsets 0 B). j < V" using V B by (auto simp: offs)
  have pad': "transform (kernel_config t s) NInf = NInf \<or> (\<forall>j\<in>set (col_offsets 0 B). j < V)"
    using pad by (auto simp: offs transform_NInf_off)
  show ?thesis
    using block_logsumexp_eq [OF len some pad'] sum_columns [OF len B, of "pre_transform t s"]
    by (simp add: offs logsumexp_of_def comp_def)
qed

lemma chunked_logsumexp:
  assumes len: "length xs = V" and V: "0 < V" and B: "0 < B"
    and pad: "(t = 0 \<and> 0 \<le> s) \<or> n_blocks_of V B * B = V"
  shows "torch_logsumexp (map (block_logsumexp (kernel_config t s) (map Fin xs) V B)
                            [0..<n_blocks_of V B]) =
         Fin (logsumexp_of (map (pre_transform t s) xs))"
proof -
  let ?n = "n_blocks_of V B"
  let ?S = "\<lambda>k. \<Sum>j\<leftarrow>col_offsets k B. if j < V then exp (pre_transform t s (xs ! j)) else 0"
  have n: "0 < ?n" using n_blocks_cover [OF B, of V] V by (cases "?n") auto
  have some: "\<exists>j\<in>set (col_offsets k B). j < V" if "k < ?n" for k
    using block_has_column [OF B that] B by (auto simp: set_col_offsets intro: bexI [of _ "k * B"])
  have pad': "transform (kernel_config t s) NInf = NInf \<or> (\<forall>j\<in>set (col_offsets k B). j < V)"
    if "k < ?n" for k
  proof (cases "t = 0 \<and> 0 \<le> s")
    case True
    then show ?thesis by (simp add: transform_NInf_off)
  next
    case False
    with pad have full: "?n * B = V" by simp
    have "j < V" if j: "j \<in> set (col_offsets k B)" for j
    proof -
      from j have "j < Suc k * B" by (simp add: set_col_offsets)
      moreover have "Suc k * B \<le> ?n * B" using \<open>k < ?n\<close> by (intro mult_le_mono1) simp
      ultimately show ?thesis using full by simp
    qed
    then show ?thesis by blast
  qed
  have blocks: "map (block_logsumexp (kernel_config t s) (map Fin xs) V B) [0..<?n] =
                map Fin (map (\<lambda>k. ln (?S k)) [0..<?n])"
    using block_logsumexp_eq [OF len some pad'] by simp
  have pos: "0 < ?S k" if "k < ?n" for k
    using block_sum_pos [OF some [OF that]] .
  have "(\<Sum>k\<leftarrow>[0..<?n]. exp (ln (?S k))) = (\<Sum>k\<leftarrow>[0..<?n]. ?S k)"
    using pos by (intro arg_cong [of _ _ sum_list] map_cong) auto
  also have "\<dots> = (\<Sum>j\<leftarrow>[0..<?n * B]. if j < V then exp (pre_transform t s (xs ! j)) else 0)"
    by (rule sum_blocks)
  also have "\<dots> = (\<Sum>x\<leftarrow>xs. exp (pre_transform t s x))"
    by (rule sum_columns [OF len n_blocks_cover [OF B]])
  finally have total: "logsumexp_of (map (\<lambda>k. ln (?S k)) [0..<?n]) =
                       logsumexp_of (map (pre_transform t s) xs)"
    by (simp add: logsumexp_of_def comp_def)
  have "[0..<?n] \<noteq> []" using n by simp
  then have "torch_logsumexp (map Fin (map (\<lambda>k. ln (?S k)) [0..<?n])) =
             Fin (logsumexp_of (map (\<lambda>k. ln (?S k)) [0..<?n]))"
    using stable_logsumexp_Fin [of "map (\<lambda>k. ln (?S k)) [0..<?n]"]
    by (simp add: torch_logsumexp_def)
  then show ?thesis by (simp only: blocks total)
qed

text \<open>
  With softcapping off and a scale that is not negative, the lanes beyond the vocabulary
  stay at \<open>-inf\<close> through the pre-transform; with a block of exactly \<open>vocab_size\<close> lanes
  there are none. In both cases the single-pass kernel stores the log-sum-exp of the
  transformed row and, for a label that is a column, that value minus the transformed logit
  of the label.
\<close>

lemma single_pass_loss_formula:
  assumes len: "length xs = V" and V: "0 < V" and B: "V \<le> B"
    and pad: "(t = 0 \<and> 0 \<le> s) \<or> B = V"
    and lab: "valid_label V l"
  shows "cross_entropy_forward (map Fin xs) l V B (kernel_config t s) =
           Inr (if l \<noteq> - 100
                then Fin (logsumexp_of (map (pre_transform t s) xs) -
                          pre_transform t s (xs ! nat (sint l)))
                else Fin 0,
                Fin (logsumexp_of (map (pre_transform t s) xs)))"
proof -
  have len': "length (map Fin xs) = V" using len by simp
  have x: "transform (kernel_config t s) (map Fin xs ! nat (sint l)) =
           Fin (pre_transform t s (xs ! nat (sint l)))" if "l \<noteq> - 100"
  proof -
    from lab that have "0 \<le> sint l" "sint l < int V" by (simp_all add: valid_label_def)
    then have "nat (sint l) < V" by linarith
    then show ?thesis using len by (simp add: transform_Fin)
  qed
  show ?thesis
    using lab x
    by (simp add: cross_entropy_forward_eq [OF len'] single_pass_logsumexp [OF len V B pad]
        fsub_def)
qed

lemma single_pass_loss_formula_example:
  "cross_entropy_forward (map Fin [1, 2, 3, 4]) 2 4 4 (kernel_config 0 0) =
     Inr (Fin (ln (exp 1 + (exp 2 + (exp 3 + exp 4))) - 3),
          Fin (ln (exp 1 + (exp 2 + (exp 3 + exp 4)))))"
  using single_pass_loss_formula [of "[1, 2, 3, 4]" 4 4 0 0 2]
  by (simp add: valid_label_def logsumexp_of_def pre_transform_def scaled_def)

text \<open>
  In the same cases (for the chunked path: softcapping off and a scale that is not negative,
  or chunks that end exactly at \<open>vocab_size\<close>), the chunked path with chunks of any width
  stores the same loss and the same log-sum-exp as the single-pass kernel.
\<close>

lemma chunked_path_equals_single_pass:
  assumes len: "length xs = V" and V: "0 < V" and B: "V \<le> B" and Bc: "0 < Bc"
    and pad: "(t = 0 \<and> 0 \<le> s) \<or> (B = V \<and> n_blocks_of V Bc * Bc = V)"
    and lab: "valid_label V l"
  shows "chunked_row u (kernel_config t s) V (n_blocks_of V Bc) Bc (map Fin xs) l =
         cross_entropy_forward (map Fin xs) l V B (kernel_config t s)"
proof -
  have len': "length (map Fin xs) = V" using len by simp
  have pad1: "(t = 0 \<and> 0 \<le> s) \<or> B = V" using pad by blast
  have pad2: "(t = 0 \<and> 0 \<le> s) \<or> n_blocks_of V Bc * Bc = V" using pad by blast
  have n: "n_blocks_of V Bc \<noteq> 0"
  proof
    assume "n_blocks_of V Bc = 0"
    with n_blocks_cover [OF Bc, of V] V show False by simp
  qed
  have x: "transform (kernel_config t s) (map Fin xs ! nat (sint l)) =
           Fin (pre_transform t s (xs ! nat (sint l)))" if "l \<noteq> - 100"
  proof -
    from lab that have "0 \<le> sint l" "sint l < int V" by (simp_all add: valid_label_def)
    then have "nat (sint l) < V" by linarith
    then show ?thesis using len by (simp add: transform_Fin)
  qed
  show ?thesis
    using lab x n
    by (simp add: cross_entropy_forward_eq [OF len'] chunked_row_eq [OF len' lab]
        single_pass_logsumexp [OF len V B pad1] chunked_logsumexp [OF len V Bc pad2]
        fsub_def label_term_def)
qed

lemma chunked_path_equals_single_pass_example:
  "chunked_row NaN (kernel_config 0 2) 3 (n_blocks_of 3 2) 2 (map Fin [0, 1, 2]) 1 =
   cross_entropy_forward (map Fin [0, 1, 2]) 1 3 4 (kernel_config 0 2)"
  using chunked_path_equals_single_pass [of "[0, 1, 2]" 3 4 2 0 2 1 NaN]
  by (simp add: valid_label_def)

text \<open>
  The log-sum-exp that either forward path saves for backward is finite on a row of finite
  logits, with softcapping on or with a scale that is not negative.
\<close>

lemma transform_NInf_below_inf:
  "t \<noteq> 0 \<or> 0 \<le> s \<Longrightarrow> below_inf (transform (kernel_config t s) NInf)"
  by (auto simp: transform_def softcap_logit_def scale_logit_def kernel_config_def inf_signed_def)

lemma block_logsumexp_finite:
  assumes len: "length xs = V"
    and some: "\<exists>j\<in>set (col_offsets k B). j < V"
    and cfg: "t \<noteq> 0 \<or> 0 \<le> s"
  shows "block_logsumexp (kernel_config t s) (map Fin xs) V B k =
         Fin (ln (\<Sum>j\<leftarrow>col_offsets k B.
                    exp_weight (if j < V then Fin (pre_transform t s (xs ! j))
                                else transform (kernel_config t s) NInf)))"
proof -
  let ?offs = "col_offsets k B"
  let ?ls = "map (\<lambda>j. if j < V then Fin (pre_transform t s (xs ! j))
                   else transform (kernel_config t s) NInf) ?offs"
  have ok: "\<forall>l\<in>set ?ls. below_inf l" using transform_NInf_below_inf [OF cfg] by auto
  from some obtain j where "j \<in> set ?offs" "j < V" by blast
  then have fin: "Fin (pre_transform t s (xs ! j)) \<in> set ?ls" by force
  show ?thesis
    unfolding block_logsumexp_def block_lanes_Fin [OF len]
    using stable_logsumexp_eq [OF ok fin] by (simp add: comp_def)
qed

lemma saved_logsumexp_finite:
  assumes len: "length xs = V" and V: "0 < V" and B: "V \<le> B" and Bc: "0 < Bc"
    and cfg: "t \<noteq> 0 \<or> 0 \<le> s" and lab: "valid_label V l"
  shows "\<exists>loss L. cross_entropy_forward (map Fin xs) l V B (kernel_config t s) = Inr (loss, Fin L)"
    and "\<exists>loss L. chunked_row u (kernel_config t s) V (n_blocks_of V Bc) Bc (map Fin xs) l =
                   Inr (loss, Fin L)"
proof -
  have len': "length (map Fin xs) = V" using len by simp
  have "\<exists>j\<in>set (col_offsets 0 B). j < V" using V B by (auto simp: col_offsets_upt)
  from block_logsumexp_finite [OF len this cfg]
  show "\<exists>loss L. cross_entropy_forward (map Fin xs) l V B (kernel_config t s) = Inr (loss, Fin L)"
    using lab by (simp add: cross_entropy_forward_eq [OF len'])
next
  have len': "length (map Fin xs) = V" using len by simp
  let ?n = "n_blocks_of V Bc"
  let ?L = "\<lambda>k. ln (\<Sum>j\<leftarrow>col_offsets k Bc.
                    exp_weight (if j < V then Fin (pre_transform t s (xs ! j))
                                else transform (kernel_config t s) NInf))"
  have some: "\<exists>j\<in>set (col_offsets k Bc). j < V" if "k < ?n" for k
    using block_has_column [OF Bc that] Bc
    by (auto simp: set_col_offsets intro: bexI [of _ "k * Bc"])
  have blocks: "map (block_logsumexp (kernel_config t s) (map Fin xs) V Bc) [0..<?n] =
                map Fin (map ?L [0..<?n])"
    using block_logsumexp_finite [OF len some cfg] by simp
  have "?n \<noteq> 0"
  proof
    assume "?n = 0"
    with n_blocks_cover [OF Bc, of V] V show False by simp
  qed
  then have "map ?L [0..<?n] \<noteq> []" by simp
  then have "torch_logsumexp (map Fin (map ?L [0..<?n])) = Fin (logsumexp_of (map ?L [0..<?n]))"
    unfolding torch_logsumexp_def by (rule stable_logsumexp_Fin)
  then show "\<exists>loss L. chunked_row u (kernel_config t s) V ?n Bc (map Fin xs) l = Inr (loss, Fin L)"
    by (simp only: chunked_row_eq [OF len' lab] blocks) blast
qed

section \<open>The chunks the forward pass launches\<close>

lemma next_power_of_2_from_ge: "0 < p \<Longrightarrow> n \<le> next_power_of_2_from p n"
proof (induction p n rule: next_power_of_2_from.induct)
  case (1 p n)
  show ?case
  proof (cases "n \<le> p \<or> p = 0")
    case True
    then have "next_power_of_2_from p n = p"
      by (subst next_power_of_2_from.simps) (simp del: next_power_of_2_from.simps)
    with True "1.prems" show ?thesis by (auto simp del: next_power_of_2_from.simps)
  next
    case False
    then have eq: "next_power_of_2_from p n = next_power_of_2_from (2 * p) n"
      by (subst next_power_of_2_from.simps) (simp del: next_power_of_2_from.simps)
    have "0 < 2 * p" using "1.prems" by simp
    with "1.IH" [OF False] have "n \<le> next_power_of_2_from (2 * p) n" .
    with eq show ?thesis by (simp del: next_power_of_2_from.simps)
  qed
qed

lemma calculate_settings_ge: "n \<le> calculate_settings n"
  unfolding calculate_settings_def by (rule next_power_of_2_from_ge) simp

lemma single_pass_branch_eq:
  assumes reg: "regular rows" and len: "length ls = length rows"
    and lab: "\<forall>l\<in>set ls. valid_label (vocab_size_of rows) l"
  shows "single_pass_branch cfg (vocab_size_of rows) rows ls =
     Inr (map (\<lambda>i. if ls ! i \<noteq> - 100
                     then fsub (block_logsumexp cfg (rows ! i) (vocab_size_of rows)
                                  (calculate_settings (vocab_size_of rows)) 0)
                            (transform cfg (rows ! i ! nat (sint (ls ! i))))
                     else Fin 0) [0..<length rows],
          map (\<lambda>i. block_logsumexp cfg (rows ! i) (vocab_size_of rows)
                      (calculate_settings (vocab_size_of rows)) 0) [0..<length rows])"
proof -
  let ?V = "vocab_size_of rows"
  let ?B = "calculate_settings ?V"
  have rd: "read_at ls i = Inr (ls ! i)" if "i < length rows" for i
    using that len by (simp add: read_at_def)
  have v: "valid_label ?V (ls ! i)" if "i < length rows" for i
    using that len lab by simp
  have "all_rows (map (\<lambda>row_idx.
                 case read_at ls row_idx of
                   Inl e \<Rightarrow> Inl e
                 | Inr label_idx \<Rightarrow>
                     cross_entropy_forward (rows ! row_idx) label_idx ?V ?B cfg)
               [0..<length rows]) =
        Inr (map (\<lambda>i. (if ls ! i \<noteq> - 100
                         then fsub (block_logsumexp cfg (rows ! i) ?V ?B 0)
                                (transform cfg (rows ! i ! nat (sint (ls ! i))))
                         else Fin 0,
                         block_logsumexp cfg (rows ! i) ?V ?B 0)) [0..<length rows])"
    by (rule all_rows_cong)
       (simp add: rd v cross_entropy_forward_eq [OF regular_nth [OF reg]])
  then show ?thesis
    by (simp add: single_pass_branch_def Let_def comp_def)
qed

lemma chunked_branch_eq:
  assumes reg: "regular rows" and len: "length ls = length rows"
    and lab: "\<forall>l\<in>set ls. valid_label (vocab_size_of rows) l"
  shows "chunked_branch u cfg (vocab_size_of rows) n rows ls =
     Inr (map (\<lambda>i. if ls ! i = - 100 then Fin 0
                     else fadd (if n = 0 then u else label_term cfg (rows ! i) (ls ! i))
                            (torch_logsumexp
                               (map (block_logsumexp cfg (rows ! i) (vocab_size_of rows)
                                       MAX_FUSED_SIZE) [0..<n]))) [0..<length rows],
          map (\<lambda>i. torch_logsumexp
                      (map (block_logsumexp cfg (rows ! i) (vocab_size_of rows)
                              MAX_FUSED_SIZE) [0..<n])) [0..<length rows])"
proof -
  let ?V = "vocab_size_of rows"
  have rd: "read_at ls i = Inr (ls ! i)" if "i < length rows" for i
    using that len by (simp add: read_at_def)
  have v: "valid_label ?V (ls ! i)" if "i < length rows" for i
    using that len lab by simp
  have "all_rows (map (\<lambda>row_idx.
               case read_at ls row_idx of
                 Inl e \<Rightarrow> Inl e
               | Inr label_idx \<Rightarrow>
                   chunked_row u cfg ?V n MAX_FUSED_SIZE (rows ! row_idx) label_idx)
             [0..<length rows]) =
        Inr (map (\<lambda>i. (if ls ! i = - 100 then Fin 0
                         else fadd (if n = 0 then u else label_term cfg (rows ! i) (ls ! i))
                                (torch_logsumexp
                                   (map (block_logsumexp cfg (rows ! i) ?V MAX_FUSED_SIZE)
                                      [0..<n])),
                         torch_logsumexp
                           (map (block_logsumexp cfg (rows ! i) ?V MAX_FUSED_SIZE) [0..<n])))
               [0..<length rows])"
    by (rule all_rows_cong)
       (simp add: rd chunked_row_eq [OF regular_nth [OF reg] v])
  then show ?thesis
    by (simp add: chunked_branch_def comp_def)
qed

lemma block_logsumexp_lanes:
  "block_logsumexp cfg row V B k =
   stable_logsumexp (map (transform cfg)
                       (map (\<lambda>j. if j < V then row ! j else NInf) [k * B ..< k * B + B]))"
  by (simp only: block_logsumexp_def col_offsets_upt)

lemma block_logsumexp_fun:
  "block_logsumexp cfg row V B =
   (\<lambda>k. stable_logsumexp (map (transform cfg)
                       (map (\<lambda>j. if j < V then row ! j else NInf) [k * B ..< k * B + B])))"
  by (rule ext) (rule block_logsumexp_lanes)

text \<open>
  C7. For a vocabulary of \<open>V > 0\<close> columns, \<^verbatim>\<open>Fast_CrossEntropyLoss.forward\<close> takes
  \<open>ceil (V / 65536)\<close> chunks and runs the single-pass kernel exactly when that count is 1
  (when \<open>V \<le> 65536\<close>), the chunked kernel otherwise. The program of chunk \<open>k\<close> of
  the chunked kernel, launched with the block width \<open>65536\<close>, stores the log-sum-exp of
  the lanes it loads at the columns \<open>[k * 65536, k * 65536 + 65536)\<close>, those at or beyond
  \<open>V\<close> filled with \<open>-inf\<close>; on a tensor of rows of \<open>V\<close> columns with valid labels the
  forward pass returns, for \<open>V > 65536\<close>, the losses and the saved log-sum-exp reduced
  from exactly those chunks \<open>0, ..., ceil (V / 65536) - 1\<close> of each row, and for
  \<open>V \<le> 65536\<close> those of the one block \<open>[0, calculate_settings V)\<close>, which covers the
  row. Every column below \<open>V\<close> is in exactly one chunk, every chunk has a column below
  \<open>V\<close>, and every chunk but the last has all its offsets below \<open>V\<close>.
\<close>

theorem chunk_partition:
  assumes "0 < V" and "vocab_size_of logits = V"
  shows "int (n_blocks_of V MAX_FUSED_SIZE) = \<lceil>real V / 65536\<rceil> \<and>
         (n_blocks_of V MAX_FUSED_SIZE = 1 \<longleftrightarrow> V \<le> 65536) \<and>
         (V \<le> 65536 \<longrightarrow>
            map_sum id fst (Fast_CrossEntropyLoss_forward u logits labels t s) =
            map_sum id fst (single_pass_branch (kernel_config t s) V logits labels)) \<and>
         (65536 < V \<longrightarrow>
            map_sum id fst (Fast_CrossEntropyLoss_forward u logits labels t s) =
            map_sum id fst (chunked_branch u (kernel_config t s) V
                              (n_blocks_of V MAX_FUSED_SIZE) logits labels)) \<and>
         (\<forall>k. set (col_offsets k MAX_FUSED_SIZE) = {k * 65536 ..< (k + 1) * 65536}) \<and>
         (\<forall>j < V. \<exists>!k. k < n_blocks_of V MAX_FUSED_SIZE \<and> j < V \<and>
                      j \<in> set (col_offsets k MAX_FUSED_SIZE)) \<and>
         (\<forall>k. k + 1 < n_blocks_of V MAX_FUSED_SIZE \<longrightarrow>
              (\<forall>j \<in> set (col_offsets k MAX_FUSED_SIZE). j < V)) \<and>
         (\<forall>k < n_blocks_of V MAX_FUSED_SIZE. k * 65536 < V) \<and>
         (\<forall>row l cfg k st. length row = V \<and> (0 < k \<or> valid_label V l) \<longrightarrow>
            chunked_cross_entropy_forward row l V MAX_FUSED_SIZE cfg k st =
              Inr (if k = 0
                   then (if l \<noteq> - 100
                         then fmul (Fin (- 1)) (transform cfg (row ! nat (sint l)))
                         else Fin 0)
                   else fst st,
                   (snd st)[k := stable_logsumexp
                      (map (transform cfg)
                         (map (\<lambda>j. if j < V then row ! j else NInf)
                            [k * 65536 ..< k * 65536 + 65536]))])) \<and>
         (regular logits \<and> length labels = length logits \<and>
          (\<forall>l\<in>set labels. valid_label V l) \<and> 65536 < V \<longrightarrow>
            Fast_CrossEntropyLoss_forward u logits labels t s =
              Inr (map (\<lambda>i. if labels ! i = - 100 then Fin 0
                              else fadd (fmul (Fin (- 1))
                                           (transform (kernel_config t s)
                                              (logits ! i ! nat (sint (labels ! i)))))
                                     (torch_logsumexp
                                        (map (\<lambda>k. stable_logsumexp
                                                 (map (transform (kernel_config t s))
                                                    (map (\<lambda>j. if j < V then logits ! i ! j
                                                               else NInf)
                                                       [k * 65536 ..< k * 65536 + 65536])))
                                           [0..<n_blocks_of V MAX_FUSED_SIZE])))
                     [0..<length logits],
                   \<lparr>saved_logits = logits,
                    saved_logsumexp =
                      map (\<lambda>i. torch_logsumexp
                                  (map (\<lambda>k. stable_logsumexp
                                           (map (transform (kernel_config t s))
                                              (map (\<lambda>j. if j < V then logits ! i ! j
                                                         else NInf)
                                                 [k * 65536 ..< k * 65536 + 65536])))
                                     [0..<n_blocks_of V MAX_FUSED_SIZE]))
                        [0..<length logits],
                    saved_labels = labels, saved_config = kernel_config t s\<rparr>)) \<and>
         (regular logits \<and> length labels = length logits \<and>
          (\<forall>l\<in>set labels. valid_label V l) \<and> V \<le> 65536 \<longrightarrow>
            V \<le> calculate_settings V \<and>
            Fast_CrossEntropyLoss_forward u logits labels t s =
              Inr (map (\<lambda>i. if labels ! i \<noteq> - 100
                              then fsub (stable_logsumexp
                                           (map (transform (kernel_config t s))
                                              (map (\<lambda>j. if j < V then logits ! i ! j
                                                         else NInf)
                                                 [0 ..< calculate_settings V])))
                                     (transform (kernel_config t s)
                                        (logits ! i ! nat (sint (labels ! i))))
                              else Fin 0)
                     [0..<length logits],
                   \<lparr>saved_logits = logits,
                    saved_logsumexp =
                      map (\<lambda>i. stable_logsumexp
                                  (map (transform (kernel_config t s))
                                     (map (\<lambda>j. if j < V then logits ! i ! j else NInf)
                                        [0 ..< calculate_settings V])))
                        [0..<length logits],
                    saved_labels = labels, saved_config = kernel_config t s\<rparr>))"
proof -
  let ?n = "n_blocks_of V MAX_FUSED_SIZE"
  let ?cfg = "kernel_config t s"
  have B: "0 < MAX_FUSED_SIZE" by (simp add: MAX_FUSED_SIZE_def)
  have M: "MAX_FUSED_SIZE = 65536" by (simp add: MAX_FUSED_SIZE_def)
  have c: "int ?n = \<lceil>real V / 65536\<rceil>"
    using n_blocks_ceiling [OF B, of V] by (simp add: MAX_FUSED_SIZE_def)
  have one: "?n = 1 \<longleftrightarrow> V \<le> 65536"
    using n_blocks_one_iff [OF B assms(1)] by (simp add: MAX_FUSED_SIZE_def)
  have n0: "?n \<noteq> 0"
  proof
    assume "?n = 0"
    with n_blocks_cover [OF B, of V] assms(1) show False by simp
  qed
  have single: "map_sum id fst (Fast_CrossEntropyLoss_forward u logits labels t s) =
                map_sum id fst (single_pass_branch ?cfg V logits labels)"
    if "V \<le> 65536"
    using that one assms(2)
    by (simp add: Fast_CrossEntropyLoss_forward_def Let_def split: sum.splits prod.splits)
  have chunked: "map_sum id fst (Fast_CrossEntropyLoss_forward u logits labels t s) =
                 map_sum id fst (chunked_branch u ?cfg V ?n logits labels)"
    if "65536 < V"
    using that one assms(2)
    by (simp add: Fast_CrossEntropyLoss_forward_def Let_def split: sum.splits prod.splits)
  have offs: "set (col_offsets k MAX_FUSED_SIZE) = {k * 65536 ..< (k + 1) * 65536}" for k
    by (simp add: set_col_offsets MAX_FUSED_SIZE_def add.commute)
  have cover: "\<exists>!k. k < ?n \<and> j < V \<and> j \<in> set (col_offsets k MAX_FUSED_SIZE)"
    if "j < V" for j
    using block_of_column [OF B that] that by simp
  have full: "\<forall>j \<in> set (col_offsets k MAX_FUSED_SIZE). j < V" if "k + 1 < ?n" for k
  proof
    fix j assume "j \<in> set (col_offsets k MAX_FUSED_SIZE)"
    then have "j < Suc k * MAX_FUSED_SIZE" by (simp add: set_col_offsets)
    moreover have "Suc k * MAX_FUSED_SIZE \<le> V"
      using full_blocks_below [OF B, of k V] that by simp
    ultimately show "j < V" by simp
  qed
  have nonempty: "k * 65536 < V" if "k < ?n" for k
    using block_has_column [OF B that] by (simp add: M)
  have program: "chunked_cross_entropy_forward row l V MAX_FUSED_SIZE cfg k st =
              Inr (if k = 0
                   then (if l \<noteq> - 100
                         then fmul (Fin (- 1)) (transform cfg (row ! nat (sint l)))
                         else Fin 0)
                   else fst st,
                   (snd st)[k := stable_logsumexp
                      (map (transform cfg)
                         (map (\<lambda>j. if j < V then row ! j else NInf)
                            [k * 65536 ..< k * 65536 + 65536]))])"
    if "length row = V \<and> (0 < k \<or> valid_label V l)" for row l cfg k st
  proof -
    from that have len: "length row = V" and ok: "\<not> (k = 0 \<and> \<not> valid_label V l)" by auto
    show ?thesis
      using ok
      by (simp add: chunked_program_eq [OF len] block_logsumexp_lanes label_term_def M)
  qed
  have fwd_chunked: "Fast_CrossEntropyLoss_forward u logits labels t s =
              Inr (map (\<lambda>i. if labels ! i = - 100 then Fin 0
                              else fadd (fmul (Fin (- 1))
                                           (transform ?cfg (logits ! i ! nat (sint (labels ! i)))))
                                     (torch_logsumexp
                                        (map (\<lambda>k. stable_logsumexp
                                                 (map (transform ?cfg)
                                                    (map (\<lambda>j. if j < V then logits ! i ! j
                                                               else NInf)
                                                       [k * 65536 ..< k * 65536 + 65536])))
                                           [0..<?n])))
                     [0..<length logits],
                   \<lparr>saved_logits = logits,
                    saved_logsumexp =
                      map (\<lambda>i. torch_logsumexp
                                  (map (\<lambda>k. stable_logsumexp
                                           (map (transform ?cfg)
                                              (map (\<lambda>j. if j < V then logits ! i ! j
                                                         else NInf)
                                                 [k * 65536 ..< k * 65536 + 65536])))
                                     [0..<?n]))
                        [0..<length logits],
                    saved_labels = labels, saved_config = ?cfg\<rparr>)"
    if h: "regular logits \<and> length labels = length logits \<and>
          (\<forall>l\<in>set labels. valid_label V l) \<and> 65536 < V"
  proof -
    from h have reg: "regular logits" and len: "length labels = length logits"
      and lab: "\<forall>l\<in>set labels. valid_label (vocab_size_of logits) l" and big: "65536 < V"
      using assms(2) by auto
    from big one have n1: "?n \<noteq> 1" by simp
    have losses: "map (\<lambda>i. if labels ! i = - 100 then Fin 0
                     else fadd (if ?n = 0 then u else label_term ?cfg (logits ! i) (labels ! i))
                            (torch_logsumexp
                               (map (block_logsumexp ?cfg (logits ! i) V MAX_FUSED_SIZE)
                                  [0..<?n]))) [0..<length logits] =
          map (\<lambda>i. if labels ! i = - 100 then Fin 0
                              else fadd (fmul (Fin (- 1))
                                           (transform ?cfg (logits ! i ! nat (sint (labels ! i)))))
                                     (torch_logsumexp
                                        (map (\<lambda>k. stable_logsumexp
                                                 (map (transform ?cfg)
                                                    (map (\<lambda>j. if j < V then logits ! i ! j
                                                               else NInf)
                                                       [k * 65536 ..< k * 65536 + 65536])))
                                           [0..<?n])))
                     [0..<length logits]"
      using n0 by (intro map_cong) (auto simp: label_term_def block_logsumexp_fun M)
    have lses: "map (\<lambda>i. torch_logsumexp
                      (map (block_logsumexp ?cfg (logits ! i) V MAX_FUSED_SIZE) [0..<?n]))
                  [0..<length logits] =
                map (\<lambda>i. torch_logsumexp
                                  (map (\<lambda>k. stable_logsumexp
                                           (map (transform ?cfg)
                                              (map (\<lambda>j. if j < V then logits ! i ! j
                                                         else NInf)
                                                 [k * 65536 ..< k * 65536 + 65536])))
                                     [0..<?n]))
                        [0..<length logits]"
      by (intro map_cong) (auto simp: block_logsumexp_fun M)
    have "chunked_branch u ?cfg V ?n logits labels =
          Inr (map (\<lambda>i. if labels ! i = - 100 then Fin 0
                     else fadd (if ?n = 0 then u else label_term ?cfg (logits ! i) (labels ! i))
                            (torch_logsumexp
                               (map (block_logsumexp ?cfg (logits ! i) V MAX_FUSED_SIZE)
                                  [0..<?n]))) [0..<length logits],
               map (\<lambda>i. torch_logsumexp
                      (map (block_logsumexp ?cfg (logits ! i) V MAX_FUSED_SIZE) [0..<?n]))
                  [0..<length logits])"
      using chunked_branch_eq [OF reg len lab, of u ?cfg ?n] assms(2) by simp
    then have "chunked_branch u ?cfg V ?n logits labels = Inr
        (map (\<lambda>i. if labels ! i = - 100 then Fin 0
                              else fadd (fmul (Fin (- 1))
                                           (transform ?cfg (logits ! i ! nat (sint (labels ! i)))))
                                     (torch_logsumexp
                                        (map (\<lambda>k. stable_logsumexp
                                                 (map (transform ?cfg)
                                                    (map (\<lambda>j. if j < V then logits ! i ! j
                                                               else NInf)
                                                       [k * 65536 ..< k * 65536 + 65536])))
                                           [0..<?n])))
                     [0..<length logits],
         map (\<lambda>i. torch_logsumexp
                                  (map (\<lambda>k. stable_logsumexp
                                           (map (transform ?cfg)
                                              (map (\<lambda>j. if j < V then logits ! i ! j
                                                         else NInf)
                                                 [k * 65536 ..< k * 65536 + 65536])))
                                     [0..<?n]))
                        [0..<length logits])"
      by (simp only: losses lses)
    then show ?thesis
      using n1 assms(2)
      by (simp add: Fast_CrossEntropyLoss_forward_def Let_def)
  qed
  have fwd_single: "V \<le> calculate_settings V \<and>
            Fast_CrossEntropyLoss_forward u logits labels t s =
              Inr (map (\<lambda>i. if labels ! i \<noteq> - 100
                              then fsub (stable_logsumexp
                                           (map (transform ?cfg)
                                              (map (\<lambda>j. if j < V then logits ! i ! j
                                                         else NInf)
                                                 [0 ..< calculate_settings V])))
                                     (transform ?cfg (logits ! i ! nat (sint (labels ! i))))
                              else Fin 0)
                     [0..<length logits],
                   \<lparr>saved_logits = logits,
                    saved_logsumexp =
                      map (\<lambda>i. stable_logsumexp
                                  (map (transform ?cfg)
                                     (map (\<lambda>j. if j < V then logits ! i ! j else NInf)
                                        [0 ..< calculate_settings V])))
                        [0..<length logits],
                    saved_labels = labels, saved_config = ?cfg\<rparr>)"
    if h: "regular logits \<and> length labels = length logits \<and>
          (\<forall>l\<in>set labels. valid_label V l) \<and> V \<le> 65536"
  proof -
    from h have reg: "regular logits" and len: "length labels = length logits"
      and lab: "\<forall>l\<in>set labels. valid_label (vocab_size_of logits) l" and small: "V \<le> 65536"
      using assms(2) by auto
    from small one have n1: "?n = 1" by simp
    have "single_pass_branch ?cfg V logits labels =
          Inr (map (\<lambda>i. if labels ! i \<noteq> - 100
                          then fsub (block_logsumexp ?cfg (logits ! i) V (calculate_settings V) 0)
                                 (transform ?cfg (logits ! i ! nat (sint (labels ! i))))
                          else Fin 0) [0..<length logits],
               map (\<lambda>i. block_logsumexp ?cfg (logits ! i) V (calculate_settings V) 0)
                 [0..<length logits])"
      using single_pass_branch_eq [OF reg len lab, of ?cfg] assms(2) by simp
    then show ?thesis
      using n1 assms(2) calculate_settings_ge [of V]
      by (simp add: Fast_CrossEntropyLoss_forward_def Let_def block_logsumexp_lanes)
  qed
  show ?thesis
    apply (intro conjI)
    subgoal by (rule c)
    subgoal by (rule one)
    subgoal by (intro impI, rule single, assumption)
    subgoal by (intro impI, rule chunked, assumption)
    subgoal by (intro allI, rule offs)
    subgoal by (intro allI impI, rule cover, assumption)
    subgoal by (intro allI impI, rule full, assumption)
    subgoal by (intro allI impI, rule nonempty, assumption)
    subgoal by (intro allI impI, rule program, assumption)
    subgoal by (intro impI, rule fwd_chunked, assumption)
    subgoal by (intro impI, rule fwd_single, assumption)
    done
qed

theorem chunk_partition_witness:
  "int (n_blocks_of 70000 MAX_FUSED_SIZE) = 2 \<and>
   n_blocks_of 70000 MAX_FUSED_SIZE \<noteq> 1 \<and>
   set (col_offsets 1 MAX_FUSED_SIZE) = {65536 ..< 131072} \<and>
   (\<exists>!k. k < n_blocks_of 70000 MAX_FUSED_SIZE \<and> (69999::nat) < 70000 \<and>
          69999 \<in> set (col_offsets k MAX_FUSED_SIZE)) \<and>
            chunked_cross_entropy_forward (replicate 70000 (Fin 0)) 0 70000 MAX_FUSED_SIZE (kernel_config 0 0) 1 (NaN, [NaN, NaN]) =
              Inr (if (1::nat) = 0
                   then (if (0::i32) \<noteq> - 100
                         then fmul (Fin (- 1)) (transform (kernel_config 0 0) ((replicate 70000 (Fin 0)) ! nat (sint (0::i32))))
                         else Fin 0)
                   else fst (NaN, [NaN, NaN]),
                   (snd (NaN, [NaN, NaN]))[1 := stable_logsumexp
                      (map (transform (kernel_config 0 0))
                         (map (\<lambda>j. if j < 70000 then (replicate 70000 (Fin 0)) ! j else NInf)
                            [1 * 65536 ..< 1 * 65536 + 65536]))]) \<and>
            Fast_CrossEntropyLoss_forward NaN [replicate 70000 (Fin 0)] [0] 0 0 =
              Inr (map (\<lambda>i. if [0::i32] ! i = - 100 then Fin 0
                              else fadd (fmul (Fin (- 1))
                                           (transform (kernel_config 0 0)
                                              ([replicate 70000 (Fin 0)] ! i ! nat (sint ([0::i32] ! i)))))
                                     (torch_logsumexp
                                        (map (\<lambda>k. stable_logsumexp
                                                 (map (transform (kernel_config 0 0))
                                                    (map (\<lambda>j. if j < 70000 then [replicate 70000 (Fin 0)] ! i ! j
                                                               else NInf)
                                                       [k * 65536 ..< k * 65536 + 65536])))
                                           [0..<n_blocks_of 70000 MAX_FUSED_SIZE])))
                     [0..<length [replicate 70000 (Fin 0)]],
                   \<lparr>saved_logits = [replicate 70000 (Fin 0)],
                    saved_logsumexp =
                      map (\<lambda>i. torch_logsumexp
                                  (map (\<lambda>k. stable_logsumexp
                                           (map (transform (kernel_config 0 0))
                                              (map (\<lambda>j. if j < 70000 then [replicate 70000 (Fin 0)] ! i ! j
                                                         else NInf)
                                                 [k * 65536 ..< k * 65536 + 65536])))
                                     [0..<n_blocks_of 70000 MAX_FUSED_SIZE]))
                        [0..<length [replicate 70000 (Fin 0)]],
                    saved_labels = [0], saved_config = kernel_config 0 0\<rparr>) \<and>
   Fast_CrossEntropyLoss_forward NaN [[Fin 0, Fin 0, Fin 0]] [0] 0 0 =
     Inr ([Fin (ln 3)],
          \<lparr>saved_logits = [[Fin 0, Fin 0, Fin 0]], saved_logsumexp = [Fin (ln 3)],
           saved_labels = [0], saved_config = kernel_config 0 0\<rparr>)"
proof -
  have V: "(0::nat) < 70000" by simp
  have vs: "vocab_size_of [replicate 70000 (Fin 0)] = 70000" by (simp add: vocab_size_of_def)
  note th = chunk_partition [OF V vs, where u = NaN and labels = "[0]" and t = 0 and s = 0]
  have c: "\<lceil>(70000::real) / 65536\<rceil> = 2" by (simp add: ceiling_eq_iff)
  have n2: "int (n_blocks_of 70000 MAX_FUSED_SIZE) = 2"
    using th [THEN conjunct1] c by simp
  have n1: "n_blocks_of 70000 MAX_FUSED_SIZE \<noteq> 1"
    using th [THEN conjunct2, THEN conjunct1] by simp
  have offs: "set (col_offsets 1 MAX_FUSED_SIZE) = {65536 ..< 131072}"
  proof -
    have "set (col_offsets 1 MAX_FUSED_SIZE) = {1 * 65536 ..< (1 + 1) * 65536}"
      using th [THEN conjunct2, THEN conjunct2, THEN conjunct2, THEN conjunct2, THEN conjunct1]
      by (rule spec)
    then show ?thesis by simp
  qed
  have cover: "\<exists>!k. k < n_blocks_of 70000 MAX_FUSED_SIZE \<and> (69999::nat) < 70000 \<and>
          69999 \<in> set (col_offsets k MAX_FUSED_SIZE)"
  proof -
    have "(69999::nat) < 70000 \<longrightarrow>
          (\<exists>!k. k < n_blocks_of 70000 MAX_FUSED_SIZE \<and> (69999::nat) < 70000 \<and>
             69999 \<in> set (col_offsets k MAX_FUSED_SIZE))"
      using th [THEN conjunct2, THEN conjunct2, THEN conjunct2, THEN conjunct2, THEN conjunct2,
                THEN conjunct1]
      by (rule spec)
    moreover have "(69999::nat) < 70000" by simp
    ultimately show ?thesis by (rule mp)
  qed
  have valid0: "valid_label 70000 (0::i32)" by (simp add: valid_label_def)
  have prog: "chunked_cross_entropy_forward (replicate 70000 (Fin 0)) 0 70000 MAX_FUSED_SIZE (kernel_config 0 0) 1 (NaN, [NaN, NaN]) =
              Inr (if (1::nat) = 0
                   then (if (0::i32) \<noteq> - 100
                         then fmul (Fin (- 1)) (transform (kernel_config 0 0) ((replicate 70000 (Fin 0)) ! nat (sint (0::i32))))
                         else Fin 0)
                   else fst (NaN, [NaN, NaN]),
                   (snd (NaN, [NaN, NaN]))[1 := stable_logsumexp
                      (map (transform (kernel_config 0 0))
                         (map (\<lambda>j. if j < 70000 then (replicate 70000 (Fin 0)) ! j else NInf)
                            [1 * 65536 ..< 1 * 65536 + 65536]))])"
  proof -
    have p: "length (replicate 70000 (Fin 0)) = 70000 \<and> ((0::nat) < 1 \<or> valid_label 70000 (0::i32))"
      by simp
    show ?thesis
      using th [THEN conjunct2, THEN conjunct2, THEN conjunct2, THEN conjunct2, THEN conjunct2,
                THEN conjunct2, THEN conjunct2, THEN conjunct2, THEN conjunct1,
                THEN spec, THEN spec, THEN spec, THEN spec, THEN spec, THEN mp, OF p] .
  qed
  have prem: "regular [replicate 70000 (Fin 0)] \<and> length [0::i32] = length [replicate 70000 (Fin 0)] \<and>
          (\<forall>l\<in>set [0::i32]. valid_label 70000 l) \<and> (65536::nat) < 70000"
    using valid0 by (simp add: regular_def vocab_size_of_def)
  have fwd: "Fast_CrossEntropyLoss_forward NaN [replicate 70000 (Fin 0)] [0] 0 0 =
              Inr (map (\<lambda>i. if [0::i32] ! i = - 100 then Fin 0
                              else fadd (fmul (Fin (- 1))
                                           (transform (kernel_config 0 0)
                                              ([replicate 70000 (Fin 0)] ! i ! nat (sint ([0::i32] ! i)))))
                                     (torch_logsumexp
                                        (map (\<lambda>k. stable_logsumexp
                                                 (map (transform (kernel_config 0 0))
                                                    (map (\<lambda>j. if j < 70000 then [replicate 70000 (Fin 0)] ! i ! j
                                                               else NInf)
                                                       [k * 65536 ..< k * 65536 + 65536])))
                                           [0..<n_blocks_of 70000 MAX_FUSED_SIZE])))
                     [0..<length [replicate 70000 (Fin 0)]],
                   \<lparr>saved_logits = [replicate 70000 (Fin 0)],
                    saved_logsumexp =
                      map (\<lambda>i. torch_logsumexp
                                  (map (\<lambda>k. stable_logsumexp
                                           (map (transform (kernel_config 0 0))
                                              (map (\<lambda>j. if j < 70000 then [replicate 70000 (Fin 0)] ! i ! j
                                                         else NInf)
                                                 [k * 65536 ..< k * 65536 + 65536])))
                                     [0..<n_blocks_of 70000 MAX_FUSED_SIZE]))
                        [0..<length [replicate 70000 (Fin 0)]],
                    saved_labels = [0], saved_config = kernel_config 0 0\<rparr>)"
    using th [THEN conjunct2, THEN conjunct2, THEN conjunct2, THEN conjunct2, THEN conjunct2,
              THEN conjunct2, THEN conjunct2, THEN conjunct2, THEN conjunct2, THEN conjunct1,
              THEN mp, OF prem] .
  have V3: "(0::nat) < 3" by simp
  have vs3: "vocab_size_of [[Fin 0, Fin 0, Fin 0]] = 3" by (simp add: vocab_size_of_def)
  note th3 = chunk_partition [OF V3 vs3, where u = NaN and labels = "[0]" and t = 0 and s = 0]
  have prem3: "regular [[Fin 0, Fin 0, Fin 0]] \<and> length [0::i32] = length [[Fin 0, Fin 0, Fin 0]] \<and>
          (\<forall>l\<in>set [0::i32]. valid_label 3 l) \<and> (3::nat) \<le> 65536"
    by (simp add: regular_def vocab_size_of_def valid_label_def)
  have single: "Fast_CrossEntropyLoss_forward NaN [[Fin 0, Fin 0, Fin 0]] [0] 0 0 =
     Inr ([Fin (ln 3)],
          \<lparr>saved_logits = [[Fin 0, Fin 0, Fin 0]], saved_logsumexp = [Fin (ln 3)],
           saved_labels = [0], saved_config = kernel_config 0 0\<rparr>)"
    using th3 [THEN conjunct2, THEN conjunct2, THEN conjunct2, THEN conjunct2, THEN conjunct2,
              THEN conjunct2, THEN conjunct2, THEN conjunct2, THEN conjunct2, THEN conjunct2,
              THEN mp, OF prem3, THEN conjunct2]
    by (simp add: calculate_settings_def upt_rec transform_def softcap_logit_def scale_logit_def
        kernel_config_def stable_logsumexp_def tl_max_def tl_sum_def fsub_def)
  show ?thesis
    apply (intro conjI)
    subgoal by (rule n2)
    subgoal by (rule n1)
    subgoal by (rule offs)
    subgoal by (rule cover)
    subgoal by (rule prog)
    subgoal by (rule fwd)
    subgoal by (rule single)
    done
qed

section \<open>Lanes beyond the vocabulary under softcapping\<close>

lemma ln_sum_neq: "ln (3 + exp (- 1)) \<noteq> ln (3::real)"
proof -
  have "0 < exp (- 1 :: real)" by simp
  then have "(3::real) + exp (- 1) \<noteq> 3" by linarith
  moreover have "(0::real) < 3 + exp (- 1)" by (simp add: add_pos_pos)
  ultimately show ?thesis by (simp add: ln_inj_iff)
qed

lemma pos3: "(0::real) < 3 + exp (- 1)" by (simp add: add_pos_pos)
lemma nz3: "(3::real) + exp (- 1) \<noteq> 0" using pos3 by linarith

text \<open>
  C1, at a failing input. One row of three logits 0 with label 0 and softcap 1: the block is
  4 lanes wide, the lane beyond the vocabulary is loaded as \<open>-inf\<close> and the softcap turns it
  into \<open>1 * tanh (-inf) = -1\<close>, which enters the sum of exponentials. The kernel stores the
  loss \<open>ln (3 + exp (-1))\<close>; the row's log-sum-exp minus the transformed logit of the label
  is \<open>ln 3\<close>.
\<close>

theorem single_pass_softcap_padding:
  "map_sum id fst (Fast_CrossEntropyLoss_forward u [[Fin 0, Fin 0, Fin 0]] [0] 1 0) =
     Inr [Fin (ln (3 + exp (- 1)))] \<and>
   logsumexp_of (map (pre_transform 1 0) [0, 0, 0]) - pre_transform 1 0 ([0, 0, 0] ! 0) = ln 3 \<and>
   ln (3 + exp (- 1)) \<noteq> ln (3::real)"
proof -
  have "map_sum id fst (Fast_CrossEntropyLoss_forward u [[Fin 0, Fin 0, Fin 0]] [0] 1 0) =
     Inr [Fin (ln (3 + exp (- 1)))]"
    using pos3 nz3
    by (simp add: Fast_CrossEntropyLoss_forward_def vocab_size_of_def
      n_blocks_of_def MAX_FUSED_SIZE_def single_pass_branch_def read_at_def
      cross_entropy_forward_def tl_load_masked_def calculate_settings_def col_offsets_def
      kernel_config_def Let_def upt_rec transform_def softcap_logit_def scale_logit_def
      stable_logsumexp_def tl_max_def tl_sum_def fsub_def tl_load_def)
  moreover have "logsumexp_of (map (pre_transform 1 0) [0, 0, 0]) - pre_transform 1 0 ([0, 0, 0] ! 0) = ln 3"
    by (simp add: logsumexp_of_def pre_transform_def scaled_def)
  ultimately show ?thesis using ln_sum_neq by simp
qed

text \<open>
  C3, at a failing input. The same row with softcap 1: chunks of width 1 have no lane beyond
  the vocabulary and the chunked path gives the loss \<open>ln 3\<close>; the single-pass kernel on
  its block of \<open>calculate_settings 3 = 4\<close> lanes gives \<open>ln (3 + exp (-1))\<close>.
\<close>

theorem chunked_and_single_pass_differ:
  "chunked_row u (kernel_config 1 0) 3 (n_blocks_of 3 1) 1 [Fin 0, Fin 0, Fin 0] 0 =
     Inr (Fin (ln 3), Fin (ln 3)) \<and>
   cross_entropy_forward [Fin 0, Fin 0, Fin 0] 0 3 (calculate_settings 3) (kernel_config 1 0) =
     Inr (Fin (ln (3 + exp (- 1))), Fin (ln (3 + exp (- 1)))) \<and>
   ln (3 + exp (- 1)) \<noteq> ln (3::real)"
proof -
  have r3: "replicate 3 u = [u, u, u]" by (simp add: numeral_3_eq_3)
  have "chunked_row u (kernel_config 1 0) 3 (n_blocks_of 3 1) 1 [Fin 0, Fin 0, Fin 0] 0 =
     Inr (Fin (ln 3), Fin (ln 3))"
    by (simp add: r3 chunked_row_def n_blocks_of_def chunked_cross_entropy_forward_def
      tl_load_masked_def col_offsets_def torch_logsumexp_def
      kernel_config_def Let_def upt_rec transform_def softcap_logit_def scale_logit_def
      stable_logsumexp_def tl_max_def tl_sum_def fsub_def tl_load_def)
  moreover have "cross_entropy_forward [Fin 0, Fin 0, Fin 0] 0 3 (calculate_settings 3) (kernel_config 1 0) =
     Inr (Fin (ln (3 + exp (- 1))), Fin (ln (3 + exp (- 1))))"
    using pos3 nz3
    by (simp add: cross_entropy_forward_def tl_load_masked_def calculate_settings_def col_offsets_def
      kernel_config_def Let_def upt_rec transform_def softcap_logit_def scale_logit_def
      stable_logsumexp_def tl_max_def tl_sum_def fsub_def tl_load_def)
  ultimately show ?thesis using ln_sum_neq by simp
qed

end
